theory Spec2Isabelle
  imports Complex_Main
begin


section \<open>Errors and counted loops\<close>

text \<open>
  The chunk code never throws on purpose, but JavaScript raises a \<open>TypeError\<close> when a
  property of \<open>undefined\<close> is read or written: indexing a missing slice of the grid, or
  using the batch of a block id that has no batch. Every such place is a branch of the model.
\<close>

datatype error = TypeError

definition andThen :: "error + 'a \<Rightarrow> ('a \<Rightarrow> error + 'b) \<Rightarrow> error + 'b" where
  "andThen m f = (case m of Inl e \<Rightarrow> Inl e | Inr a \<Rightarrow> f a)"

text \<open>A \<open>for\<close> loop (or \<open>forEach\<close>) over the listed indices; an exception ends it.\<close>

fun forEach :: "'i list \<Rightarrow> ('i \<Rightarrow> 's \<Rightarrow> error + 's) \<Rightarrow> 's \<Rightarrow> error + 's" where
  "forEach [] f s = Inr s"
| "forEach (i # js) f s = andThen (f i s) (forEach js f)"

section \<open>Data model\<close>

text \<open>
  JavaScript numbers are idealised: coordinates, sizes, block ids and instance ids are
  integers, noise values and terrain parameters are reals (no NaN, no infinities, no rounding).
\<close>

record cell =
  id_block :: int
  instanceId :: "int option"

record vector3 =
  vx :: int
  vy :: int
  vz :: int

record chunk_size =
  width :: int
  height :: int

record terrain_params =
  scale :: real
  magnitude :: real
  offset :: real

record chunk_params =
  seed :: int
  terrain :: terrain_params

text \<open>
  An instanced mesh, as far as the chunk uses it: the active \<open>count\<close>, the capacity
  \<open>maxCount\<close> it was allocated with, and the translation stored in each slot of the
  instance matrix buffer. A slot holds \<open>None\<close> when what was written there is not a
  position (the NaN entries read from outside the buffer).
\<close>

record mesh =
  count :: int
  maxCount :: int
  matrix :: "int \<Rightarrow> (int \<times> int \<times> int) option"

text \<open>
  Modelled from the spec: the Edit Store (class \<open>DataStore\<close>, whose source is not part of
  the development): a key-value store keyed by the chunk origin \<open>(x, z)\<close> and the local
  coordinate, with \<open>contains\<close>, \<open>get\<close> and \<open>set\<close>.
\<close>

type_synonym data_store = "(int \<times> int \<times> int \<times> int \<times> int) \<rightharpoonup> int"

definition contains :: "data_store \<Rightarrow> int \<Rightarrow> int \<Rightarrow> int \<Rightarrow> int \<Rightarrow> int \<Rightarrow> bool" where
  "contains st cx cz x y z = (st (cx, cz, x, y, z) \<noteq> None)"

definition get :: "data_store \<Rightarrow> int \<Rightarrow> int \<Rightarrow> int \<Rightarrow> int \<Rightarrow> int \<Rightarrow> int option" where
  "get st cx cz x y z = st (cx, cz, x, y, z)"

definition set_store :: "data_store \<Rightarrow> int \<Rightarrow> int \<Rightarrow> int \<Rightarrow> int \<Rightarrow> int \<Rightarrow> int \<Rightarrow> data_store" where
  "set_store st cx cz x y z b = st((cx, cz, x, y, z) \<mapsto> b)"

text \<open>
  The chunk. \<open>children\<close> are the instanced meshes attached to the group; they are looked up
  by name only, and the names are the keys of one object, so they are a map from block id to
  mesh.
\<close>

record chunk =
  data :: "cell list list list"
  loaded :: bool
  size_chunk :: chunk_size
  params :: chunk_params
  dataStore :: data_store
  position :: vector3
  children :: "int \<rightharpoonup> mesh"

text \<open>
  The block registry and the noise sources are imported by the chunk code and are parameters
  here: the ids of \<open>blocks.empty\<close>, \<open>blocks.dirt\<close> and \<open>blocks.grass\<close>, the ids of
  \<open>Object.values(blocks)\<close> in order, the \<open>resources\<close> list, and the two simplex samplers
  that \<open>generate\<close> builds from \<open>new RNG(seed)\<close>, as pure functions of the seed.
\<close>

record resource =
  res_id :: int
  scale_x :: real
  scale_y :: real
  scale_z :: real
  scarcity :: real

record registry =
  empty_id :: int
  dirt_id :: int
  grass_id :: int
  block_ids :: "int list"
  resources :: "resource list"
  noise3d :: "int \<Rightarrow> real \<Rightarrow> real \<Rightarrow> real \<Rightarrow> real"
  noise :: "int \<Rightarrow> real \<Rightarrow> real \<Rightarrow> real"

section \<open>Cell access\<close>

definition inBounds :: "chunk \<Rightarrow> int \<Rightarrow> int \<Rightarrow> int \<Rightarrow> bool" where
  "inBounds c x y z =
     (if x \<ge> 0 \<and> x < width (size_chunk c) \<and> y \<ge> 0 \<and> y < height (size_chunk c)
         \<and> z \<ge> 0 \<and> z < width (size_chunk c)
      then True else False)"

text \<open>Reading a JavaScript array: \<open>undefined\<close> outside the array.\<close>

definition index :: "'a list \<Rightarrow> int \<Rightarrow> 'a option" where
  "index xs i = (if 0 \<le> i \<and> i < int (length xs) then Some (xs ! nat i) else None)"

text \<open>
  \<open>this.data[x][y][z]\<close>: indexing \<open>undefined\<close> throws, a missing last element is
  \<open>undefined\<close>.
\<close>

definition data_at :: "cell list list list \<Rightarrow> int \<Rightarrow> int \<Rightarrow> int \<Rightarrow> error + cell option" where
  "data_at d x y z =
     (case index d x of
        None \<Rightarrow> Inl TypeError
      | Some slice \<Rightarrow>
          (case index slice y of
             None \<Rightarrow> Inl TypeError
           | Some row \<Rightarrow> Inr (index row z)))"

text \<open>Assigning a field of the cell object \<open>this.data[x][y][z]\<close>, which is known to exist.\<close>

definition data_assign :: "cell list list list \<Rightarrow> int \<Rightarrow> int \<Rightarrow> int \<Rightarrow> cell \<Rightarrow> cell list list list" where
  "data_assign d x y z cl =
     d[nat x := (d ! nat x)[nat y := (d ! nat x ! nat y)[nat z := cl]]]"

text \<open>\<open>null\<close> and \<open>undefined\<close> are both \<open>None\<close>: the callers do not tell them apart.\<close>

definition getBlock :: "chunk \<Rightarrow> int \<Rightarrow> int \<Rightarrow> int \<Rightarrow> error + cell option" where
  "getBlock c x y z = (if inBounds c x y z then data_at (data c) x y z else Inr None)"

definition setBlockId :: "chunk \<Rightarrow> int \<Rightarrow> int \<Rightarrow> int \<Rightarrow> int \<Rightarrow> error + chunk" where
  "setBlockId c x y z b =
     (if inBounds c x y z then
        (case data_at (data c) x y z of
           Inl e \<Rightarrow> Inl e
         | Inr None \<Rightarrow> Inl TypeError
         | Inr (Some cl) \<Rightarrow> Inr (c\<lparr>data := data_assign (data c) x y z (cl\<lparr>id_block := b\<rparr>)\<rparr>))
      else Inr c)"

definition setBlockInstanceId :: "chunk \<Rightarrow> int \<Rightarrow> int \<Rightarrow> int \<Rightarrow> int option \<Rightarrow> error + chunk" where
  "setBlockInstanceId c x y z i =
     (if inBounds c x y z then
        (case data_at (data c) x y z of
           Inl e \<Rightarrow> Inl e
         | Inr None \<Rightarrow> Inl TypeError
         | Inr (Some cl) \<Rightarrow> Inr (c\<lparr>data := data_assign (data c) x y z (cl\<lparr>instanceId := i\<rparr>)\<rparr>))
      else Inr c)"

text \<open>\<open>getBlock(x, y, z)?.id ?? blocks.empty.id\<close>\<close>

definition neighbourId :: "registry \<Rightarrow> chunk \<Rightarrow> int \<Rightarrow> int \<Rightarrow> int \<Rightarrow> error + int" where
  "neighbourId env c x y z =
     andThen (getBlock c x y z)
       (\<lambda>b. Inr (case b of None \<Rightarrow> empty_id env | Some cl \<Rightarrow> id_block cl))"

definition isBlockObscured :: "registry \<Rightarrow> chunk \<Rightarrow> int \<Rightarrow> int \<Rightarrow> int \<Rightarrow> error + bool" where
  "isBlockObscured env c x y z =
     andThen (neighbourId env c x (y + 1) z) (\<lambda>up.
     andThen (neighbourId env c x (y - 1) z) (\<lambda>down.
     andThen (neighbourId env c (x + 1) y z) (\<lambda>left.
     andThen (neighbourId env c (x - 1) y z) (\<lambda>right.
     andThen (neighbourId env c x y (z + 1)) (\<lambda>forward.
     andThen (neighbourId env c x y (z - 1)) (\<lambda>back.
       if up = empty_id env \<or> down = empty_id env \<or> left = empty_id env
          \<or> right = empty_id env \<or> forward = empty_id env \<or> back = empty_id env
       then Inr False else Inr True))))))"

section \<open>Generation\<close>

definition initializeTerrain :: "registry \<Rightarrow> chunk \<Rightarrow> chunk" where
  "initializeTerrain env c =
     c\<lparr>data :=
         replicate (nat (width (size_chunk c)))
           (replicate (nat (height (size_chunk c)))
              (replicate (nat (width (size_chunk c)))
                 \<lparr>id_block = empty_id env, instanceId = None\<rparr>))\<rparr>"

definition resourceStep :: "registry \<Rightarrow> resource \<Rightarrow> int \<Rightarrow> int \<Rightarrow> int \<Rightarrow> chunk \<Rightarrow> error + chunk" where
  "resourceStep env r x y z c =
     (let v = noise3d env (seed (params c))
                (real_of_int (vx (position c) + x) / scale_x r)
                (real_of_int (vy (position c) + y) / scale_y r)
                (real_of_int (vz (position c) + z) / scale_z r)
      in if v > scarcity r then setBlockId c x y z (res_id r) else Inr c)"

definition generateResources :: "registry \<Rightarrow> chunk \<Rightarrow> error + chunk" where
  "generateResources env c =
     forEach (resources env) (\<lambda>r.
       forEach [0 .. width (size_chunk c) - 1] (\<lambda>x.
         forEach [0 .. height (size_chunk c) - 1] (\<lambda>y.
           forEach [0 .. width (size_chunk c) - 1] (\<lambda>z. resourceStep env r x y z)))) c"

text \<open>The terrain height of the column \<open>(x, z)\<close>, after clamping.\<close>

definition columnHeight :: "registry \<Rightarrow> chunk \<Rightarrow> int \<Rightarrow> int \<Rightarrow> int" where
  "columnHeight env c x z =
     (let v = noise env (seed (params c))
                (real_of_int (vx (position c) + x) / scale (terrain (params c)))
                (real_of_int (vz (position c) + z) / scale (terrain (params c)));
          scaledNoise = offset (terrain (params c)) + magnitude (terrain (params c)) * v;
          h = \<lfloor>real_of_int (height (size_chunk c)) * scaledNoise\<rfloor>
      in max 0 (min h (height (size_chunk c) - 1)))"

definition terrainRest :: "registry \<Rightarrow> int \<Rightarrow> int \<Rightarrow> int \<Rightarrow> int \<Rightarrow> chunk \<Rightarrow> error + chunk" where
  "terrainRest env x z h y c =
     (if y = h then setBlockId c x y z (grass_id env)
      else if y > h then setBlockId c x y z (empty_id env)
      else Inr c)"

text \<open>
  One pass of the fill loop. \<open>getBlock\<close> is only evaluated when \<open>y < height\<close> holds
  (\<open>&&\<close> short-circuits).
\<close>

definition terrainStep :: "registry \<Rightarrow> int \<Rightarrow> int \<Rightarrow> int \<Rightarrow> int \<Rightarrow> chunk \<Rightarrow> error + chunk" where
  "terrainStep env x z h y c =
     (if y < h then
        andThen (getBlock c x y z) (\<lambda>b.
          if map_option id_block b = Some (empty_id env)
          then setBlockId c x y z (dirt_id env)
          else terrainRest env x z h y c)
      else terrainRest env x z h y c)"

definition generateTerrain :: "registry \<Rightarrow> chunk \<Rightarrow> error + chunk" where
  "generateTerrain env c =
     forEach [0 .. width (size_chunk c) - 1] (\<lambda>x.
       forEach [0 .. width (size_chunk c) - 1] (\<lambda>z c'.
         forEach [0 .. height (size_chunk c')] (terrainStep env x z (columnHeight env c' x z)) c')) c"

definition playerChangeStep :: "int \<Rightarrow> int \<Rightarrow> int \<Rightarrow> chunk \<Rightarrow> error + chunk" where
  "playerChangeStep x y z c =
     (if contains (dataStore c) (vx (position c)) (vz (position c)) x y z then
        (case get (dataStore c) (vx (position c)) (vz (position c)) x y z of
           Some blockId \<Rightarrow> setBlockId c x y z blockId
         | None \<Rightarrow> Inr c)
      else Inr c)"

definition loadPlayerChanges :: "chunk \<Rightarrow> error + chunk" where
  "loadPlayerChanges c =
     forEach [0 .. width (size_chunk c) - 1] (\<lambda>x.
       forEach [0 .. height (size_chunk c) - 1] (\<lambda>y.
         forEach [0 .. width (size_chunk c) - 1] (\<lambda>z. playerChangeStep x y z))) c"

section \<open>Meshes\<close>

text \<open>
  \<open>setMatrixAt\<close> and \<open>getMatrixAt\<close> of an instanced mesh, reduced to the translation.
  Writes outside the instance matrix buffer are dropped and reads outside it give no
  position, as a typed array does. A new mesh holds the identity in every slot.
\<close>

definition setMatrixAt :: "mesh \<Rightarrow> int \<Rightarrow> (int \<times> int \<times> int) option \<Rightarrow> mesh" where
  "setMatrixAt m i p =
     (if 0 \<le> i \<and> i < maxCount m then m\<lparr>matrix := (matrix m)(i := p)\<rparr> else m)"

definition getMatrixAt :: "mesh \<Rightarrow> int \<Rightarrow> (int \<times> int \<times> int) option" where
  "getMatrixAt m i = (if 0 \<le> i \<and> i < maxCount m then matrix m i else None)"

definition newMesh :: "int \<Rightarrow> mesh" where
  "newMesh cap = \<lparr>count = 0, maxCount = cap, matrix = (\<lambda>_. Some (0, 0, 0))\<rparr>"

definition newMeshes :: "registry \<Rightarrow> int \<Rightarrow> (int \<rightharpoonup> mesh)" where
  "newMeshes env cap =
     fold (\<lambda>b ms. ms(b \<mapsto> newMesh cap))
       (filter (\<lambda>b. b \<noteq> empty_id env) (block_ids env)) Map.empty"

text \<open>
  The body of the meshing loop; the state is the chunk and the local table \<open>meshes\<close>.
  \<open>mesh.count\<close> is read before the occlusion test, so a cell whose id has no mesh throws
  whether it is visible or not (and so does a missing cell, whose id is \<open>undefined\<close>).
\<close>

definition meshStep :: "registry \<Rightarrow> int \<Rightarrow> int \<Rightarrow> int \<Rightarrow> chunk \<times> (int \<rightharpoonup> mesh) \<Rightarrow> error + chunk \<times> (int \<rightharpoonup> mesh)" where
  "meshStep env x y z s =
     (case s of (c, meshes) \<Rightarrow>
        andThen (getBlock c x y z) (\<lambda>block.
          case block of
            None \<Rightarrow> Inl TypeError
          | Some b \<Rightarrow>
              if id_block b = empty_id env then Inr (c, meshes)
              else
                (case meshes (id_block b) of
                   None \<Rightarrow> Inl TypeError
                 | Some m \<Rightarrow>
                     andThen (isBlockObscured env c x y z) (\<lambda>obscured.
                       if \<not> obscured then
                         andThen (setBlockInstanceId c x y z (Some (count m))) (\<lambda>c'.
                           Inr (c', meshes(id_block b \<mapsto>
                                  (setMatrixAt m (count m) (Some (x, y, z)))\<lparr>count := count m + 1\<rparr>)))
                       else Inr (c, meshes)))))"

text \<open>
  \<open>this.clear()\<close> detaches the old meshes, the loop fills the new table, and
  \<open>this.add(...)\<close> attaches it.
\<close>

definition generateMeshes :: "registry \<Rightarrow> chunk \<Rightarrow> error + chunk" where
  "generateMeshes env c =
     (let c0 = c\<lparr>children := Map.empty\<rparr>;
          capacity = width (size_chunk c) * height (size_chunk c) * width (size_chunk c)
      in andThen
           (forEach [0 .. width (size_chunk c) - 1] (\<lambda>x.
              forEach [0 .. height (size_chunk c) - 1] (\<lambda>y.
                forEach [0 .. width (size_chunk c) - 1] (\<lambda>z. meshStep env x y z)))
              (c0, newMeshes env capacity))
           (\<lambda>(c', meshes). Inr (c'\<lparr>children := meshes\<rparr>)))"

definition generate :: "registry \<Rightarrow> chunk \<Rightarrow> error + chunk" where
  "generate env c =
     andThen (generateResources env (initializeTerrain env c)) (\<lambda>c1.
     andThen (generateTerrain env c1) (\<lambda>c2.
     andThen (loadPlayerChanges c2) (\<lambda>c3.
     andThen (generateMeshes env c3) (\<lambda>c4.
       Inr (c4\<lparr>loaded := True\<rparr>)))))"

section \<open>Incremental updates\<close>

definition addBlockInstance :: "registry \<Rightarrow> chunk \<Rightarrow> int \<Rightarrow> int \<Rightarrow> int \<Rightarrow> error + chunk" where
  "addBlockInstance env c x y z =
     andThen (getBlock c x y z) (\<lambda>block.
       case block of
         None \<Rightarrow> Inr c
       | Some b \<Rightarrow>
           if id_block b \<noteq> empty_id env \<and> instanceId b = None then
             (case children c (id_block b) of
                None \<Rightarrow> Inl TypeError
              | Some m \<Rightarrow>
                  andThen (setBlockInstanceId c x y z (Some (count m))) (\<lambda>c'.
                    Inr (c'\<lparr>children := (children c')(id_block b \<mapsto>
                           setMatrixAt (m\<lparr>count := count m + 1\<rparr>) (count m) (Some (x, y, z)))\<rparr>)))
           else Inr c)"

text \<open>
  Swap-with-last. The position read back from the last slot is where the instance id of the
  removed cell goes; when the slot holds no position the coordinates are NaN and
  \<open>setBlockInstanceId\<close> ignores them.
\<close>

definition deleteBlockInstance :: "chunk \<Rightarrow> int \<Rightarrow> int \<Rightarrow> int \<Rightarrow> error + chunk" where
  "deleteBlockInstance c x y z =
     andThen (getBlock c x y z) (\<lambda>block.
       case block of
         None \<Rightarrow> Inl TypeError
       | Some b \<Rightarrow>
           (case instanceId b of
              None \<Rightarrow> Inr c
            | Some i \<Rightarrow>
                (case children c (id_block b) of
                   None \<Rightarrow> Inl TypeError
                 | Some m \<Rightarrow>
                     (let lastMatrix = getMatrixAt m (count m - 1) in
                      andThen
                        (case lastMatrix of
                           None \<Rightarrow> Inr c
                         | Some (lx, ly, lz) \<Rightarrow> setBlockInstanceId c lx ly lz (Some i))
                        (\<lambda>c1.
                           setBlockInstanceId
                             (c1\<lparr>children := (children c1)(id_block b \<mapsto>
                                   (setMatrixAt m i lastMatrix)\<lparr>count := count m - 1\<rparr>)\<rparr>)
                             x y z None)))))"

definition addBlock :: "registry \<Rightarrow> chunk \<Rightarrow> int \<Rightarrow> int \<Rightarrow> int \<Rightarrow> int \<Rightarrow> error + chunk" where
  "addBlock env c x y z blockId =
     andThen (getBlock c x y z) (\<lambda>block.
       case block of
         None \<Rightarrow> Inr c
       | Some b \<Rightarrow>
           if id_block b = empty_id env then
             andThen (setBlockId c x y z blockId) (\<lambda>c1.
             andThen (addBlockInstance env c1 x y z) (\<lambda>c2.
               Inr (c2\<lparr>dataStore :=
                      set_store (dataStore c2) (vx (position c2)) (vz (position c2)) x y z blockId\<rparr>)))
           else Inr c)"

definition removeBlock :: "registry \<Rightarrow> chunk \<Rightarrow> int \<Rightarrow> int \<Rightarrow> int \<Rightarrow> error + chunk" where
  "removeBlock env c x y z =
     andThen (getBlock c x y z) (\<lambda>block.
       case block of
         None \<Rightarrow> Inr c
       | Some b \<Rightarrow>
           if id_block b \<noteq> empty_id env then
             andThen (deleteBlockInstance c x y z) (\<lambda>c1.
             andThen (setBlockId c1 x y z (empty_id env)) (\<lambda>c2.
               Inr (c2\<lparr>dataStore :=
                      set_store (dataStore c2) (vx (position c2)) (vz (position c2)) x y z
                        (empty_id env)\<rparr>)))
           else Inr c)"

section \<open>Properties\<close>

text \<open>The grid has the shape that \<open>initializeTerrain\<close> gives it: width by height by width.\<close>

definition shaped :: "chunk \<Rightarrow> bool" where
  "shaped c =
     (length (data c) = nat (width (size_chunk c)) \<and>
      list_all (\<lambda>slice. length slice = nat (height (size_chunk c)) \<and>
                 list_all (\<lambda>row. length row = nat (width (size_chunk c))) slice) (data c))"

text \<open>The cell object at an in-bounds coordinate of a shaped grid, and its replacement.\<close>

definition cellAt :: "chunk \<Rightarrow> int \<Rightarrow> int \<Rightarrow> int \<Rightarrow> cell" where
  "cellAt c x y z = data c ! nat x ! nat y ! nat z"

definition putCell :: "chunk \<Rightarrow> int \<Rightarrow> int \<Rightarrow> int \<Rightarrow> cell \<Rightarrow> chunk" where
  "putCell c x y z cl = c\<lparr>data := data_assign (data c) x y z cl\<rparr>"

text \<open>
  A small registry and chunk to run the code on: grass 1, dirt 2, one resource (stone, 3)
  that is placed in the slice \<open>x = 0\<close>, flat terrain at half the chunk height.
\<close>

definition registry0 :: registry where
  "registry0 = \<lparr>empty_id = 0, dirt_id = 2, grass_id = 1, block_ids = [0, 1, 2, 3],
     resources = [\<lparr>res_id = 3, scale_x = 1, scale_y = 1, scale_z = 1, scarcity = 1/2\<rparr>],
     noise3d = (\<lambda>s x y z. if x = 0 then 1 else 0), noise = (\<lambda>s x z. 0)\<rparr>"

definition chunk0 :: chunk where
  "chunk0 = \<lparr>data = [], loaded = False, size_chunk = \<lparr>width = 2, height = 3\<rparr>,
     params = \<lparr>seed = 7, terrain = \<lparr>scale = 30, magnitude = 0, offset = 1/2\<rparr>\<rparr>,
     dataStore = Map.empty, position = \<lparr>vx = 0, vy = 0, vz = 0\<rparr>, children = Map.empty\<rparr>"

definition chunk1 :: chunk where
  "chunk1 = (case generate registry0 chunk0 of Inr c \<Rightarrow> c | Inl e \<Rightarrow> chunk0)"

definition onlyAt :: "int \<Rightarrow> int \<Rightarrow> int \<Rightarrow> (cell \<Rightarrow> cell) \<Rightarrow> int \<Rightarrow> int \<Rightarrow> int \<Rightarrow> cell \<Rightarrow> cell" where
  "onlyAt x y z h x' y' z' cl = (if x' = x \<and> y' = y \<and> z' = z then h cl else cl)"

definition cellwise :: "chunk \<Rightarrow> chunk \<Rightarrow> (int \<Rightarrow> int \<Rightarrow> int \<Rightarrow> cell \<Rightarrow> cell) \<Rightarrow> bool" where
  "cellwise c c' g \<longleftrightarrow>
     shaped c' \<and> (\<exists>d. c' = c\<lparr>data := d\<rparr>) \<and>
     (\<forall>x y z. inBounds c x y z \<longrightarrow> cellAt c' x y z = g x y z (cellAt c x y z))"

definition stampResource :: "registry \<Rightarrow> chunk \<Rightarrow> resource \<Rightarrow> int \<Rightarrow> int \<Rightarrow> int \<Rightarrow> cell \<Rightarrow> cell" where
  "stampResource env c r x y z cl =
     (if noise3d env (seed (params c))
           (real_of_int (vx (position c) + x) / scale_x r)
           (real_of_int (vy (position c) + y) / scale_y r)
           (real_of_int (vz (position c) + z) / scale_z r) > scarcity r
      then cl\<lparr>id_block := res_id r\<rparr> else cl)"

definition fillCell :: "registry \<Rightarrow> int \<Rightarrow> int \<Rightarrow> cell \<Rightarrow> cell" where
  "fillCell env h y cl =
     (if y < h \<and> id_block cl = empty_id env then cl\<lparr>id_block := dirt_id env\<rparr>
      else if y = h then cl\<lparr>id_block := grass_id env\<rparr>
      else if y > h then cl\<lparr>id_block := empty_id env\<rparr>
      else cl)"

definition overlayCell :: "chunk \<Rightarrow> int \<Rightarrow> int \<Rightarrow> int \<Rightarrow> cell \<Rightarrow> cell" where
  "overlayCell c x y z cl =
     (case dataStore c (vx (position c), vz (position c), x, y, z) of
        Some b \<Rightarrow> cl\<lparr>id_block := b\<rparr>
      | None \<Rightarrow> cl)"

text \<open>The coordinates of the grid in the scan order of the meshing loop.\<close>

definition coords :: "chunk \<Rightarrow> (int \<times> int \<times> int) list" where
  "coords c =
     List.product [0 .. width (size_chunk c) - 1]
       (List.product [0 .. height (size_chunk c) - 1] [0 .. width (size_chunk c) - 1])"

text \<open>A grid position holds a cell whose block id is not the empty id.\<close>

definition nonEmptyAt :: "registry \<Rightarrow> chunk \<Rightarrow> int \<Rightarrow> int \<Rightarrow> int \<Rightarrow> bool" where
  "nonEmptyAt env c x y z =
     (case getBlock c x y z of
        Inr (Some cl) \<Rightarrow> id_block cl \<noteq> empty_id env
      | _ \<Rightarrow> False)"

definition allNeighboursNonEmpty :: "registry \<Rightarrow> chunk \<Rightarrow> int \<Rightarrow> int \<Rightarrow> int \<Rightarrow> bool" where
  "allNeighboursNonEmpty env c x y z =
     (nonEmptyAt env c x (y + 1) z \<and> nonEmptyAt env c x (y - 1) z \<and>
      nonEmptyAt env c (x + 1) y z \<and> nonEmptyAt env c (x - 1) y z \<and>
      nonEmptyAt env c x y (z + 1) \<and> nonEmptyAt env c x y (z - 1))"

text \<open>
  The instance bookkeeping of a chunk is consistent: every registered block type has a batch;
  a cell with an instance id owns that slot of the batch of its block type, and the slot
  stores the cell's position; every active slot of a batch belongs to such a cell.
\<close>

definition consistent :: "registry \<Rightarrow> chunk \<Rightarrow> bool" where
  "consistent env c \<longleftrightarrow>
     shaped c \<and>
     (\<forall>b\<in>set (block_ids env). b \<noteq> empty_id env \<longrightarrow> children c b \<noteq> None) \<and>
     (\<forall>x y z i. inBounds c x y z \<longrightarrow> instanceId (cellAt c x y z) = Some i \<longrightarrow>
        (\<exists>m. children c (id_block (cellAt c x y z)) = Some m \<and> 0 \<le> i \<and> i < count m \<and>
             matrix m i = Some (x, y, z))) \<and>
     (\<forall>b m. children c b = Some m \<longrightarrow>
        b \<noteq> empty_id env \<and> 0 \<le> count m \<and>
        maxCount m = width (size_chunk c) * height (size_chunk c) * width (size_chunk c) \<and>
        (\<forall>i. 0 \<le> i \<and> i < count m \<longrightarrow>
           (\<exists>x y z. matrix m i = Some (x, y, z) \<and> inBounds c x y z \<and>
              id_block (cellAt c x y z) = b \<and> instanceId (cellAt c x y z) = Some i)))"

text \<open>The parts of the invariant of the meshing loop after the coordinates \<open>pre\<close>.\<close>

definition gridPart :: "registry \<Rightarrow> chunk \<Rightarrow> (int \<times> int \<times> int) list \<Rightarrow> chunk \<Rightarrow> bool" where
  "gridPart env c0 pre c \<longleftrightarrow>
     shaped c \<and> (\<exists>d. c = c0\<lparr>data := d\<rparr>) \<and>
     (\<forall>x y z. inBounds c0 x y z \<longrightarrow> id_block (cellAt c x y z) = id_block (cellAt c0 x y z)) \<and>
     (\<forall>x y z. inBounds c0 x y z \<longrightarrow> (x, y, z) \<notin> set pre \<longrightarrow> instanceId (cellAt c x y z) = None) \<and>
     (\<forall>x y z. (x, y, z) \<in> set pre \<longrightarrow>
        (instanceId (cellAt c x y z) = None \<longleftrightarrow>
           id_block (cellAt c0 x y z) = empty_id env \<or> allNeighboursNonEmpty env c0 x y z))"

definition tablePart :: "registry \<Rightarrow> int \<Rightarrow> (int \<times> int \<times> int) list \<Rightarrow> chunk \<Rightarrow> (int \<rightharpoonup> mesh) \<Rightarrow> bool" where
  "tablePart env cap pre c ms \<longleftrightarrow>
     (\<forall>b. ms b \<noteq> None \<longleftrightarrow> b \<in> set (block_ids env) \<and> b \<noteq> empty_id env) \<and>
     (\<forall>b m. ms b = Some m \<longrightarrow>
        maxCount m = cap \<and> 0 \<le> count m \<and> count m \<le> int (length pre) \<and>
        (\<forall>i. 0 \<le> i \<and> i < count m \<longrightarrow>
           (\<exists>x y z. (x, y, z) \<in> set pre \<and> matrix m i = Some (x, y, z) \<and>
              id_block (cellAt c x y z) = b \<and> instanceId (cellAt c x y z) = Some i)))"

definition linkPart :: "(int \<times> int \<times> int) list \<Rightarrow> chunk \<Rightarrow> (int \<rightharpoonup> mesh) \<Rightarrow> bool" where
  "linkPart pre c ms \<longleftrightarrow>
     (\<forall>x y z i. (x, y, z) \<in> set pre \<longrightarrow> instanceId (cellAt c x y z) = Some i \<longrightarrow>
        (\<exists>m. ms (id_block (cellAt c x y z)) = Some m \<and> 0 \<le> i \<and> i < count m \<and>
             matrix m i = Some (x, y, z)))"

definition meshInv :: "registry \<Rightarrow> chunk \<Rightarrow> int \<Rightarrow> (int \<times> int \<times> int) list \<Rightarrow> chunk \<times> (int \<rightharpoonup> mesh) \<Rightarrow> bool" where
  "meshInv env c0 cap pre s \<longleftrightarrow>
     gridPart env c0 pre (fst s) \<and> tablePart env cap pre (fst s) (snd s) \<and> linkPart pre (fst s) (snd s)"

text \<open>No cell of the grid has an instance id.\<close>

definition noInstances :: "chunk \<Rightarrow> bool" where
  "noInstances c \<longleftrightarrow> (\<forall>x y z. inBounds c x y z \<longrightarrow> instanceId (cellAt c x y z) = None)"

text \<open>
  What occlusion culling leaves: a cell has no instance exactly when it is empty or all six
  neighbours are inside the chunk and not empty.
\<close>

definition culled :: "registry \<Rightarrow> chunk \<Rightarrow> bool" where
  "culled env c \<longleftrightarrow>
     (\<forall>x y z. inBounds c x y z \<longrightarrow>
        (instanceId (cellAt c x y z) = None \<longleftrightarrow>
           id_block (cellAt c x y z) = empty_id env \<or> allNeighboursNonEmpty env c x y z))"

text \<open>
  The id that resource placement leaves at a coordinate: the id of the last resource in the
  list whose noise value exceeds its scarcity there, the empty id when there is none.
\<close>

definition resourceAt :: "registry \<Rightarrow> chunk \<Rightarrow> int \<Rightarrow> int \<Rightarrow> int \<Rightarrow> int" where
  "resourceAt env c x y z =
     fold (\<lambda>r b.
            if noise3d env (seed (params c))
                 (real_of_int (vx (position c) + x) / scale_x r)
                 (real_of_int (vy (position c) + y) / scale_y r)
                 (real_of_int (vz (position c) + z) / scale_z r) > scarcity r
            then res_id r else b)
       (resources env) (empty_id env)"

text \<open>The block id of a cell after resources, terrain and player changes.\<close>

definition generatedId :: "registry \<Rightarrow> chunk \<Rightarrow> int \<Rightarrow> int \<Rightarrow> int \<Rightarrow> int" where
  "generatedId env c x y z =
     id_block (overlayCell c x y z
       (fillCell env (columnHeight env c x z) y
          \<lparr>id_block = resourceAt env c x y z, instanceId = None\<rparr>))"

text \<open>
  The instance ids of the cells of block type \<open>b\<close> that have one, in scan order.
\<close>

definition instancesOf :: "chunk \<Rightarrow> int \<Rightarrow> int list" where
  "instancesOf c b =
     concat (map (\<lambda>(x, y, z).
        case getBlock c x y z of
          Inr (Some cl) \<Rightarrow>
            (if id_block cl = b then (case instanceId cl of Some i \<Rightarrow> [i] | None \<Rightarrow> []) else [])
        | _ \<Rightarrow> []) (coords c))"

text \<open>
  The batch count invariant: every block type other than the empty one has a batch whose
  count is the number of cells of that type with an instance id, and these instance ids are
  exactly \<open>0, \<dots>, count - 1\<close>, each once.
\<close>

definition batchCountInvariant :: "registry \<Rightarrow> chunk \<Rightarrow> bool" where
  "batchCountInvariant env c \<longleftrightarrow>
     (\<forall>b\<in>set (block_ids env). b \<noteq> empty_id env \<longrightarrow>
        (case children c b of
           None \<Rightarrow> False
         | Some m \<Rightarrow>
             count m = int (length (instancesOf c b)) \<and>
             distinct (instancesOf c b) \<and>
             set (instancesOf c b) = {0 ..< count m}))"

text \<open>The cells of block type \<open>b\<close> that have an instance id.\<close>

definition instanced :: "chunk \<Rightarrow> int \<Rightarrow> (int \<times> int \<times> int) list" where
  "instanced c b =
     filter (\<lambda>(x, y, z). id_block (cellAt c x y z) = b \<and> instanceId (cellAt c x y z) \<noteq> None)
       (coords c)"

text \<open>The chunk after a visible block of type \<open>b\<close> was placed at an empty position.\<close>

definition placed :: "chunk \<Rightarrow> int \<Rightarrow> int \<Rightarrow> int \<Rightarrow> int \<Rightarrow> mesh \<Rightarrow> chunk" where
  "placed c x y z b m =
     (putCell c x y z \<lparr>id_block = b, instanceId = Some (count m)\<rparr>)
       \<lparr>children := (children c)(b \<mapsto>
           m\<lparr>count := count m + 1, matrix := (matrix m)(count m \<mapsto> (x, y, z))\<rparr>)\<rparr>"

text \<open>
  The chunk after the instance \<open>i\<close> of the cell at \<open>(x, y, z)\<close> was removed from the batch
  \<open>m\<close> of block type \<open>b\<close>, whose last slot held the position \<open>(lx, ly, lz)\<close>.
\<close>

definition unlinked :: "chunk \<Rightarrow> int \<Rightarrow> int \<Rightarrow> int \<Rightarrow> int \<Rightarrow> int \<Rightarrow> mesh \<Rightarrow> int \<Rightarrow> int \<Rightarrow> int \<Rightarrow> chunk" where
  "unlinked c x y z i b m lx ly lz =
     (putCell (putCell c lx ly lz ((cellAt c lx ly lz)\<lparr>instanceId := Some i\<rparr>))
        x y z ((cellAt c x y z)\<lparr>instanceId := None\<rparr>))
       \<lparr>children := (children c)(b \<mapsto>
           m\<lparr>matrix := (matrix m)(i \<mapsto> (lx, ly, lz)), count := count m - 1\<rparr>)\<rparr>"

text \<open>
  The chunks the code can be in: the result of \<open>generate\<close>, and what \<open>addBlock\<close> and
  \<open>removeBlock\<close> make of such a chunk when they return.
\<close>

inductive reachable :: "registry \<Rightarrow> chunk \<Rightarrow> bool" for env :: registry where
  generated: "generate env c0 = Inr c \<Longrightarrow> reachable env c"
| added: "reachable env c \<Longrightarrow> addBlock env c x y z b = Inr c' \<Longrightarrow> reachable env c'"
| removed: "reachable env c \<Longrightarrow> removeBlock env c x y z = Inr c' \<Longrightarrow> reachable env c'"

text \<open>The chunk after \<open>deleteBlockInstance\<close> at a non-empty cell of a consistent chunk.\<close>

definition detached :: "chunk \<Rightarrow> int \<Rightarrow> int \<Rightarrow> int \<Rightarrow> chunk" where
  "detached c x y z =
     (case instanceId (cellAt c x y z) of
        None \<Rightarrow> c
      | Some i \<Rightarrow>
          (case children c (id_block (cellAt c x y z)) of
             None \<Rightarrow> c
           | Some m \<Rightarrow>
               (case matrix m (count m - 1) of
                  None \<Rightarrow> c
                | Some (lx, ly, lz) \<Rightarrow>
                    unlinked c x y z i (id_block (cellAt c x y z)) m lx ly lz)))"

text \<open>
  Two chunks agree on what \<open>generate\<close> reads before it overwrites it: the grid, the size, the
  generation parameters, the origin and the Edit Store.
\<close>

definition agree :: "chunk \<Rightarrow> chunk \<Rightarrow> bool" where
  "agree c1 c2 \<longleftrightarrow>
     data c1 = data c2 \<and> size_chunk c1 = size_chunk c2 \<and> params c1 = params c2 \<and>
     position c1 = position c2 \<and> dataStore c1 = dataStore c2"

text \<open>The same for the state of the meshing loop, which also carries the mesh table.\<close>

definition agreeMesh :: "bool \<Rightarrow> bool \<Rightarrow> chunk \<times> (int \<rightharpoonup> mesh) \<Rightarrow> chunk \<times> (int \<rightharpoonup> mesh) \<Rightarrow> bool" where
  "agreeMesh l1 l2 s t \<longleftrightarrow>
     agree (fst s) (fst t) \<and> children (fst s) = children (fst t) \<and>
     loaded (fst s) = l1 \<and> loaded (fst t) = l2 \<and> snd s = snd t"

text \<open>
  A block id the mesh synthesizer can handle: the empty id, or an id of the registry.
\<close>

definition registered :: "registry \<Rightarrow> int \<Rightarrow> bool" where
  "registered env b \<longleftrightarrow> b = empty_id env \<or> b \<in> set (block_ids env)"

text \<open>The registry lists dirt, grass and every resource among its blocks.\<close>

definition wellFormed :: "registry \<Rightarrow> bool" where
  "wellFormed env \<longleftrightarrow>
     registered env (dirt_id env) \<and> registered env (grass_id env) \<and>
     list_all (\<lambda>r. registered env (res_id r)) (resources env)"

text \<open>All six axis-aligned neighbours of a coordinate lie inside the chunk.\<close>

definition interior :: "chunk \<Rightarrow> int \<Rightarrow> int \<Rightarrow> int \<Rightarrow> bool" where
  "interior c x y z \<longleftrightarrow>
     inBounds c x (y + 1) z \<and> inBounds c x (y - 1) z \<and>
     inBounds c (x + 1) y z \<and> inBounds c (x - 1) y z \<and>
     inBounds c x y (z + 1) \<and> inBounds c x y (z - 1)"

text \<open>
  The same chunk with leftovers of an earlier life: another grid, a mesh and the \<open>loaded\<close>
  flag.
\<close>

definition chunk0_stale :: chunk where
  "chunk0_stale =
     chunk0\<lparr>data := [[[\<lparr>id_block = 9, instanceId = Some 5\<rparr>]]], loaded := True,
            children := [3 \<mapsto> newMesh 1]\<rparr>"

text \<open>
  The same chunk with two player edits in the Edit Store: stone where generation puts dirt,
  and a deletion of a grass block.
\<close>

definition chunk0_edited :: chunk where
  "chunk0_edited = chunk0\<lparr>dataStore := [(0, 0, 1, 0, 0) \<mapsto> 3, (0, 0, 0, 1, 0) \<mapsto> 0]\<rparr>"

definition chunk1_edited :: chunk where
  "chunk1_edited = (case generate registry0 chunk0_edited of Inr c \<Rightarrow> c | Inl e \<Rightarrow> chunk0_edited)"

text \<open>The count of the batch of a block type, and the position stored in one of its slots.\<close>

definition batchCount :: "chunk \<Rightarrow> int \<Rightarrow> int option" where
  "batchCount c b = map_option count (children c b)"

definition slotPosition :: "chunk \<Rightarrow> int \<Rightarrow> int \<Rightarrow> (int \<times> int \<times> int) option" where
  "slotPosition c b i = (case children c b of None \<Rightarrow> None | Some m \<Rightarrow> getMatrixAt m i)"

text \<open>Chunks made from \<open>chunk1\<close> by the incremental updates.\<close>

definition chunk2 :: chunk where
  "chunk2 = (case addBlock registry0 chunk1 0 2 0 2 of Inr c \<Rightarrow> c | Inl e \<Rightarrow> chunk1)"

definition chunk3 :: chunk where
  "chunk3 = (case removeBlock registry0 chunk2 0 1 0 of Inr c \<Rightarrow> c | Inl e \<Rightarrow> chunk2)"

definition chunk1_first_removed :: chunk where
  "chunk1_first_removed = (case removeBlock registry0 chunk1 0 1 0 of Inr c \<Rightarrow> c | Inl e \<Rightarrow> chunk1)"

definition chunk1_last_removed :: chunk where
  "chunk1_last_removed = (case removeBlock registry0 chunk1 1 1 1 of Inr c \<Rightarrow> c | Inl e \<Rightarrow> chunk1)"

definition chunk1_empty_added :: chunk where
  "chunk1_empty_added = (case addBlock registry0 chunk1 0 2 0 0 of Inr c \<Rightarrow> c | Inl e \<Rightarrow> chunk1)"

text \<open>
  Chunks of three by three by three cells, the smallest with an interior cell: one whose
  terrain is a single layer of grass, and one filled up to the top layer.
\<close>

definition chunkFlat :: chunk where
  "chunkFlat = chunk0\<lparr>size_chunk := \<lparr>width = 3, height = 3\<rparr>,
     params := \<lparr>seed = 7, terrain = \<lparr>scale = 30, magnitude = 0, offset = 0\<rparr>\<rparr>\<rparr>"

definition chunkFlat1 :: chunk where
  "chunkFlat1 = (case generate registry0 chunkFlat of Inr c \<Rightarrow> c | Inl e \<Rightarrow> chunkFlat)"

definition chunkFull :: chunk where
  "chunkFull = chunk0\<lparr>size_chunk := \<lparr>width = 3, height = 3\<rparr>,
     params := \<lparr>seed = 7, terrain = \<lparr>scale = 30, magnitude = 0, offset = 2 / 3\<rparr>\<rparr>\<rparr>"

definition chunkFull1 :: chunk where
  "chunkFull1 = (case generate registry0 chunkFull of Inr c \<Rightarrow> c | Inl e \<Rightarrow> chunkFull)"

section \<open>Cell access on a shaped grid\<close>

lemma andThen_Inr [simp]: "andThen (Inr a) f = f a"
  by (simp add: andThen_def)

lemma andThen_Inl [simp]: "andThen (Inl e) f = Inl e"
  by (simp add: andThen_def)

lemma andThen_eq_Inr: "andThen m f = Inr b \<longleftrightarrow> (\<exists>a. m = Inr a \<and> f a = Inr b)"
  by (cases m) simp_all

lemma inBounds_iff:
  "inBounds c x y z \<longleftrightarrow>
     0 \<le> x \<and> x < width (size_chunk c) \<and> 0 \<le> y \<and> y < height (size_chunk c)
       \<and> 0 \<le> z \<and> z < width (size_chunk c)"
  by (simp add: inBounds_def)

lemma shaped_slice:
  "shaped c \<Longrightarrow> 0 \<le> x \<Longrightarrow> x < width (size_chunk c) \<Longrightarrow>
     length (data c ! nat x) = nat (height (size_chunk c))"
  by (simp add: shaped_def list_all_length)

lemma shaped_row:
  "shaped c \<Longrightarrow> 0 \<le> x \<Longrightarrow> x < width (size_chunk c) \<Longrightarrow>
     0 \<le> y \<Longrightarrow> y < height (size_chunk c) \<Longrightarrow>
     length (data c ! nat x ! nat y) = nat (width (size_chunk c))"
  by (simp add: shaped_def list_all_length)

lemma data_at_in:
  assumes "shaped c" "inBounds c x y z"
  shows "data_at (data c) x y z = Inr (Some (cellAt c x y z))"
proof -
  from assms have b: "0 \<le> x" "x < width (size_chunk c)" "0 \<le> y" "y < height (size_chunk c)"
    "0 \<le> z" "z < width (size_chunk c)"
    by (simp_all add: inBounds_iff)
  have l1: "length (data c) = nat (width (size_chunk c))"
    using assms(1) by (simp add: shaped_def)
  note l2 = shaped_slice [OF assms(1) b(1,2)]
  note l3 = shaped_row [OF assms(1) b(1,2,3,4)]
  show ?thesis
    using b l1 l2 l3 by (simp add: data_at_def index_def cellAt_def)
qed

lemma getBlock_in:
  "shaped c \<Longrightarrow> inBounds c x y z \<Longrightarrow> getBlock c x y z = Inr (Some (cellAt c x y z))"
  by (simp add: getBlock_def data_at_in)

lemma getBlock_out: "\<not> inBounds c x y z \<Longrightarrow> getBlock c x y z = Inr None"
  by (simp add: getBlock_def)

lemma setBlockId_in:
  "shaped c \<Longrightarrow> inBounds c x y z \<Longrightarrow>
     setBlockId c x y z b = Inr (putCell c x y z ((cellAt c x y z)\<lparr>id_block := b\<rparr>))"
  by (simp add: setBlockId_def data_at_in putCell_def)

lemma setBlockId_out: "\<not> inBounds c x y z \<Longrightarrow> setBlockId c x y z b = Inr c"
  by (simp add: setBlockId_def)

lemma setBlockInstanceId_in:
  "shaped c \<Longrightarrow> inBounds c x y z \<Longrightarrow>
     setBlockInstanceId c x y z i = Inr (putCell c x y z ((cellAt c x y z)\<lparr>instanceId := i\<rparr>))"
  by (simp add: setBlockInstanceId_def data_at_in putCell_def)

lemma setBlockInstanceId_out: "\<not> inBounds c x y z \<Longrightarrow> setBlockInstanceId c x y z i = Inr c"
  by (simp add: setBlockInstanceId_def)

lemma putCell_fields [simp]:
  "size_chunk (putCell c x y z cl) = size_chunk c"
  "params (putCell c x y z cl) = params c"
  "dataStore (putCell c x y z cl) = dataStore c"
  "position (putCell c x y z cl) = position c"
  "children (putCell c x y z cl) = children c"
  "loaded (putCell c x y z cl) = loaded c"
  by (simp_all add: putCell_def)

lemma inBounds_putCell [simp]: "inBounds (putCell c x y z cl) x' y' z' = inBounds c x' y' z'"
  by (simp add: inBounds_def)

lemma shaped_putCell:
  assumes "shaped c"
  shows "shaped (putCell c x y z cl)"
proof -
  let ?w = "nat (width (size_chunk c))" and ?h = "nat (height (size_chunk c))"
  let ?d = "data c"
  let ?d' = "data_assign ?d x y z cl"
  from assms have l1: "length ?d = ?w"
    and l2: "\<And>i. i < ?w \<Longrightarrow> length (?d ! i) = ?h"
    and l3: "\<And>i j. i < ?w \<Longrightarrow> j < ?h \<Longrightarrow> length (?d ! i ! j) = ?w"
    by (simp_all add: shaped_def list_all_length)
  have m1: "length ?d' = ?w"
    using l1 by (simp add: data_assign_def)
  have m2: "length (?d' ! i) = ?h" if "i < ?w" for i
    using that l1 l2 by (cases "i = nat x") (simp_all add: data_assign_def)
  have m3: "length (?d' ! i ! j) = ?w" if "i < ?w" "j < ?h" for i j
  proof (cases "i = nat x")
    case True
    then show ?thesis
      using that l1 l2 l3 by (cases "j = nat y") (simp_all add: data_assign_def)
  next
    case False
    then show ?thesis
      using that l1 l3 by (simp add: data_assign_def)
  qed
  show ?thesis
    unfolding shaped_def list_all_length
    using m1 m2 m3 by (simp add: putCell_def)
qed

lemma nth_update3:
  assumes "i < length d" "j < length (d ! i)" "k < length (d ! i ! j)"
  shows "d[i := (d ! i)[j := (d ! i ! j)[k := v]]] ! i' ! j' ! k' =
           (if i' = i \<and> j' = j \<and> k' = k then v else d ! i' ! j' ! k')"
proof (cases "i' = i")
  case True
  show ?thesis
  proof (cases "j' = j")
    case j: True
    show ?thesis
      using True j assms by (simp add: nth_list_update)
  next
    case j: False
    show ?thesis
      using True j assms by simp
  qed
next
  case False
  then show ?thesis by simp
qed

lemma cellAt_putCell:
  assumes "shaped c" "inBounds c x y z" "inBounds c x' y' z'"
  shows "cellAt (putCell c x y z cl) x' y' z' =
           (if x' = x \<and> y' = y \<and> z' = z then cl else cellAt c x' y' z')"
proof -
  from assms(2) have b: "0 \<le> x" "x < width (size_chunk c)" "0 \<le> y" "y < height (size_chunk c)"
    "0 \<le> z" "z < width (size_chunk c)"
    by (simp_all add: inBounds_iff)
  from assms(3) have b': "0 \<le> x'" "0 \<le> y'" "0 \<le> z'"
    by (simp_all add: inBounds_iff)
  have l1: "nat x < length (data c)"
    using assms(1) b(1,2) by (simp add: shaped_def)
  have l2: "nat y < length (data c ! nat x)"
    using shaped_slice [OF assms(1) b(1,2)] b(3,4) by simp
  have l3: "nat z < length (data c ! nat x ! nat y)"
    using shaped_row [OF assms(1) b(1,2,3,4)] b(5,6) by simp
  have n: "nat x' = nat x \<longleftrightarrow> x' = x" "nat y' = nat y \<longleftrightarrow> y' = y" "nat z' = nat z \<longleftrightarrow> z' = z"
    using b(1,3,5) b' by (simp_all add: eq_nat_nat_iff)
  show ?thesis
    unfolding cellAt_def putCell_def data_assign_def
    by (simp add: nth_update3 [OF l1 l2 l3] n)
qed

lemma putCell_same: 
  assumes "shaped c" "inBounds c x y z" 
  shows "putCell c x y z (cellAt c x y z) = c"
  by (simp add: putCell_def data_assign_def cellAt_def)

section \<open>No-op cases of the incremental updates\<close>

lemma getBlock_Some_iff:
  "getBlock c x y z = Inr (Some b) \<longleftrightarrow> inBounds c x y z \<and> data_at (data c) x y z = Inr (Some b)"
  by (simp add: getBlock_def)

lemma data_assign_same:
  assumes "data_at d x y z = Inr (Some b)"
  shows "data_assign d x y z b = d"
proof -
  from assms have "b = d ! nat x ! nat y ! nat z"
    by (auto simp: data_at_def index_def split: option.splits if_splits)
  then show ?thesis
    by (simp add: data_assign_def)
qed

lemma setBlockId_same:
  assumes "getBlock c x y z = Inr (Some b)"
  shows "setBlockId c x y z (id_block b) = Inr c"
proof -
  from assms have i: "inBounds c x y z" and d: "data_at (data c) x y z = Inr (Some b)"
    by (simp_all add: getBlock_Some_iff)
  show ?thesis
    using i d by (simp add: setBlockId_def data_assign_same)
qed

text \<open>
  C8: \<open>addBlock\<close> on a cell that is not empty, \<open>removeBlock\<close> on an empty cell, and
  both at a coordinate outside the chunk return the chunk as it was: no cell, no batch and
  no Edit Store entry changes, and no error is raised.
\<close>

theorem addBlock_removeBlock_noop:
  "(getBlock c x y z = Inr (Some b) \<and> id_block b \<noteq> empty_id env
      \<longrightarrow> addBlock env c x y z blockId = Inr c) \<and>
   (getBlock c x y z = Inr (Some b) \<and> id_block b = empty_id env
      \<longrightarrow> removeBlock env c x y z = Inr c) \<and>
   (\<not> inBounds c x y z
      \<longrightarrow> addBlock env c x y z blockId = Inr c \<and> removeBlock env c x y z = Inr c)"
  by (simp add: addBlock_def removeBlock_def getBlock_out)

theorem addBlock_removeBlock_noop_witness:
  "addBlock registry0 chunk1 0 0 0 2 = Inr chunk1 \<and>
   removeBlock registry0 chunk1 0 2 0 = Inr chunk1 \<and>
   addBlock registry0 chunk1 0 3 0 2 = Inr chunk1 \<and>
   removeBlock registry0 chunk1 (- 1) 0 0 = Inr chunk1"
proof -
  have full: "getBlock chunk1 0 0 0 = Inr (Some \<lparr>id_block = 3, instanceId = Some 0\<rparr>)"
    by code_simp
  have free: "getBlock chunk1 0 2 0 = Inr (Some \<lparr>id_block = 0, instanceId = None\<rparr>)"
    by code_simp
  have e: "empty_id registry0 = 0"
    by (simp add: registry0_def)
  have out: "\<not> inBounds chunk1 0 3 0" "\<not> inBounds chunk1 (- 1) 0 0"
    by code_simp+
  show ?thesis
    using addBlock_removeBlock_noop [of chunk1 0 0 0 "\<lparr>id_block = 3, instanceId = Some 0\<rparr>" registry0 2]
      addBlock_removeBlock_noop [of chunk1 0 2 0 "\<lparr>id_block = 0, instanceId = None\<rparr>" registry0 2]
      addBlock_removeBlock_noop [of chunk1 0 3 0 _ registry0 2]
      addBlock_removeBlock_noop [of chunk1 "- 1" 0 0 _ registry0 2]
      full free e out
    by simp
qed

lemma addBlock_with_empty_id:
  assumes "getBlock c x y z = Inr (Some b)" and "id_block b = empty_id env"
  shows "addBlock env c x y z (empty_id env) =
           Inr (c\<lparr>dataStore := (dataStore c)((vx (position c), vz (position c), x, y, z) \<mapsto> empty_id env)\<rparr>)"
proof -
  have s: "setBlockId c x y z (empty_id env) = Inr c"
    using setBlockId_same [OF assms(1)] assms(2) by simp
  have a: "addBlockInstance env c x y z = Inr c"
    using assms by (simp add: addBlockInstance_def)
  show ?thesis
    using assms s a by (simp add: addBlock_def set_store_def)
qed

text \<open>
  C10: \<open>addBlock\<close> with the reserved empty id on an empty cell changes neither the grid nor
  the batches, and still writes the empty id into the Edit Store under the chunk origin and
  the local coordinate.
\<close>

theorem addBlock_empty_id:
  assumes "getBlock c x y z = Inr (Some b)" and "id_block b = empty_id env"
  shows "addBlock env c x y z (empty_id env) =
           Inr (c\<lparr>dataStore := (dataStore c)((vx (position c), vz (position c), x, y, z) \<mapsto> empty_id env)\<rparr>)"
  using assms by (rule addBlock_with_empty_id)

theorem addBlock_empty_id_witness:
  "getBlock chunk1 0 2 0 = Inr (Some \<lparr>id_block = 0, instanceId = None\<rparr>) \<and>
   addBlock registry0 chunk1 0 2 0 0 = Inr (chunk1\<lparr>dataStore := (dataStore chunk1)((0, 0, 0, 2, 0) \<mapsto> 0)\<rparr>)"
proof -
  have free: "getBlock chunk1 0 2 0 = Inr (Some \<lparr>id_block = 0, instanceId = None\<rparr>)"
    by code_simp
  have e: "empty_id registry0 = 0"
    by (simp add: registry0_def)
  have p: "vx (position chunk1) = 0" "vz (position chunk1) = 0"
    by code_simp+
  show ?thesis
    using addBlock_empty_id [of chunk1 0 2 0 "\<lparr>id_block = 0, instanceId = None\<rparr>" registry0] free e p
    by simp
qed

lemma cellwise_refl: "shaped c \<Longrightarrow> cellwise c c (\<lambda>x y z cl. cl)"
  by (auto simp: cellwise_def intro: exI [of _ "data c"])

lemma cellwise_inBounds: "cellwise c c' g \<Longrightarrow> inBounds c' x y z = inBounds c x y z"
  by (auto simp: cellwise_def inBounds_def)

lemma cellwise_trans:
  assumes "cellwise c c' g" "cellwise c' c'' g'"
  shows "cellwise c c'' (\<lambda>x y z cl. g' x y z (g x y z cl))"
proof -
  from assms(1) obtain d where d: "c' = c\<lparr>data := d\<rparr>"
    by (auto simp: cellwise_def)
  from assms(2) obtain d' where d': "c'' = c'\<lparr>data := d'\<rparr>"
    by (auto simp: cellwise_def)
  have e: "\<exists>d. c'' = c\<lparr>data := d\<rparr>"
    using d d' by auto
  have s: "shaped c''"
    using assms(2) by (simp add: cellwise_def)
  have v: "cellAt c'' x y z = g' x y z (g x y z (cellAt c x y z))" if "inBounds c x y z" for x y z
  proof -
    have "inBounds c' x y z"
      using that cellwise_inBounds [OF assms(1)] by simp
    then have "cellAt c'' x y z = g' x y z (cellAt c' x y z)"
      using assms(2) by (simp add: cellwise_def)
    then show ?thesis
      using assms(1) that by (simp add: cellwise_def)
  qed
  show ?thesis
    unfolding cellwise_def using s e v by blast
qed

lemma cellwise_cong:
  assumes "cellwise c c' g"
    and "\<And>x y z. inBounds c x y z \<Longrightarrow> g' x y z (cellAt c x y z) = g x y z (cellAt c x y z)"
  shows "cellwise c c' g'"
  using assms unfolding cellwise_def by auto

lemma cellwise_fields:
  assumes "cellwise c c' g"
  shows "size_chunk c' = size_chunk c" "params c' = params c" "dataStore c' = dataStore c"
    "position c' = position c" "children c' = children c" "loaded c' = loaded c"
    "shaped c'"
  using assms by (auto simp: cellwise_def)

lemma forEach_cellwise:
  assumes "\<And>i d. i \<in> set js \<Longrightarrow> shaped (c\<lparr>data := d\<rparr>) \<Longrightarrow>
             \<exists>c'. f i (c\<lparr>data := d\<rparr>) = Inr c' \<and> cellwise (c\<lparr>data := d\<rparr>) c' (g i)"
    and "shaped c"
  shows "\<exists>c'. forEach js f c = Inr c' \<and> cellwise c c' (\<lambda>x y z. fold (\<lambda>i. g i x y z) js)"
  using assms
proof (induction js arbitrary: c)
  case Nil
  then show ?case
    using cellwise_refl [of c] by simp
next
  case (Cons i js)
  have "c = c\<lparr>data := data c\<rparr>" by simp
  with Cons.prems(1) [of i "data c"] Cons.prems(2)
  obtain c1 where c1: "f i c = Inr c1" "cellwise c c1 (g i)"
    by auto
  from c1(2) obtain d1 where d1: "c1 = c\<lparr>data := d1\<rparr>"
    by (auto simp: cellwise_def)
  have s1: "shaped c1"
    using c1(2) by (simp add: cellwise_def)
  have step: "\<exists>c'. f j (c1\<lparr>data := d\<rparr>) = Inr c' \<and> cellwise (c1\<lparr>data := d\<rparr>) c' (g j)"
    if "j \<in> set js" "shaped (c1\<lparr>data := d\<rparr>)" for j d
    using Cons.prems(1) [of j d] that by (simp add: d1)
  from Cons.IH [OF step s1]
  obtain c2 where c2: "forEach js f c1 = Inr c2"
    "cellwise c1 c2 (\<lambda>x y z. fold (\<lambda>i. g i x y z) js)"
    by blast
  have "forEach (i # js) f c = Inr c2"
    using c1(1) c2(1) by simp
  moreover have "cellwise c c2 (\<lambda>x y z. fold (\<lambda>i. g i x y z) (i # js))"
    using cellwise_trans [OF c1(2) c2(2)] by (simp add: comp_def)
  ultimately show ?case
    by blast
qed

lemma fold_pick:
  assumes "distinct js"
  shows "fold (\<lambda>i v. if i = k then h v else v) js v = (if k \<in> set js then h v else v)"
  using assms
proof (induction js arbitrary: v)
  case Nil
  then show ?case by simp
next
  case (Cons j js)
  then show ?case
    by (cases "j = k") auto
qed

lemma fold_const_id: "fold (\<lambda>i v. v) js v = v"
  by (induction js) simp_all

lemma fold_onlyAt_z:
  assumes "distinct zs"
  shows "fold (\<lambda>k. onlyAt x y k h x' y' z') zs cl =
           (if x' = x \<and> y' = y \<and> z' \<in> set zs then h cl else cl)"
proof (cases "x' = x \<and> y' = y")
  case True
  then have "(\<lambda>k. onlyAt x y k h x' y' z') = (\<lambda>k v. if k = z' then h v else v)"
    by (auto simp: onlyAt_def fun_eq_iff)
  then show ?thesis
    using True fold_pick [OF assms, of z' h cl] by simp
next
  case False
  then have "(\<lambda>k. onlyAt x y k h x' y' z') = (\<lambda>k v. v)"
    by (auto simp: onlyAt_def fun_eq_iff)
  then show ?thesis
    using False by (auto simp: fold_const_id)
qed

lemma setBlockId_cellwise:
  assumes "shaped c"
  shows "\<exists>c'. setBlockId c x y z b = Inr c' \<and> cellwise c c' (onlyAt x y z (\<lambda>cl. cl\<lparr>id_block := b\<rparr>))"
proof (cases "inBounds c x y z")
  case True
  let ?c' = "putCell c x y z ((cellAt c x y z)\<lparr>id_block := b\<rparr>)"
  have "setBlockId c x y z b = Inr ?c'"
    by (rule setBlockId_in [OF assms True])
  moreover have "cellwise c ?c' (onlyAt x y z (\<lambda>cl. cl\<lparr>id_block := b\<rparr>))"
    unfolding cellwise_def
    using shaped_putCell [OF assms] cellAt_putCell [OF assms True]
    by (auto simp: onlyAt_def putCell_def)
  ultimately show ?thesis by blast
next
  case False
  have "setBlockId c x y z b = Inr c"
    by (rule setBlockId_out [OF False])
  moreover have "cellwise c c (onlyAt x y z (\<lambda>cl. cl\<lparr>id_block := b\<rparr>))"
    using cellwise_refl [OF assms] False
    by (auto simp: cellwise_def onlyAt_def)
  ultimately show ?thesis by blast
qed

lemma cellwise_skip:
  assumes "shaped c" "\<And>cl. h cl = cl"
  shows "cellwise c c (onlyAt x y z h)"
  using cellwise_refl [OF assms(1)] assms(2) by (auto simp: cellwise_def onlyAt_def)

lemma cellwise_onlyAt_cong:
  assumes "cellwise c c' (onlyAt x y z h)"
    and "inBounds c x y z \<Longrightarrow> h' (cellAt c x y z) = h (cellAt c x y z)"
  shows "cellwise c c' (onlyAt x y z h')"
  using assms(1)
proof (rule cellwise_cong)
  fix x' y' z'
  assume "inBounds c x' y' z'"
  then show "onlyAt x y z h' x' y' z' (cellAt c x' y' z') = onlyAt x y z h x' y' z' (cellAt c x' y' z')"
    using assms(2) by (auto simp: onlyAt_def)
qed

lemma fold_sweep:
  assumes "distinct js" and "\<And>i j. P i \<Longrightarrow> P j \<Longrightarrow> i = j"
  shows "fold (\<lambda>i v. if P i then h v else v) js v = (if \<exists>i\<in>set js. P i then h v else v)"
  using assms(1)
proof (induction js arbitrary: v)
  case Nil
  then show ?case by simp
next
  case (Cons j js)
  show ?case
  proof (cases "P j")
    case True
    then have "\<not> (\<exists>i\<in>set js. P i)"
      using assms(2) Cons.prems by auto
    then show ?thesis
      using True Cons by simp
  next
    case False
    then show ?thesis
      using Cons by simp
  qed
qed

lemma forEach_sweep:
  assumes step: "\<And>i d. i \<in> set js \<Longrightarrow> shaped (c\<lparr>data := d\<rparr>) \<Longrightarrow>
             \<exists>c'. f i (c\<lparr>data := d\<rparr>) = Inr c' \<and>
               cellwise (c\<lparr>data := d\<rparr>) c' (\<lambda>x y z cl. if P i x y z then H x y z cl else cl)"
    and one: "\<And>i j x y z. P i x y z \<Longrightarrow> P j x y z \<Longrightarrow> i = j"
    and "distinct js" and "shaped c"
  shows "\<exists>c'. forEach js f c = Inr c' \<and>
           cellwise c c' (\<lambda>x y z cl. if \<exists>i\<in>set js. P i x y z then H x y z cl else cl)"
proof -
  from forEach_cellwise [of js c f "\<lambda>i x y z cl. if P i x y z then H x y z cl else cl", OF step \<open>shaped c\<close>]
  obtain c' where c': "forEach js f c = Inr c'"
    "cellwise c c' (\<lambda>x y z. fold (\<lambda>i cl. if P i x y z then H x y z cl else cl) js)"
    by blast
  have "cellwise c c' (\<lambda>x y z cl. if \<exists>i\<in>set js. P i x y z then H x y z cl else cl)"
    using c'(2)
  proof (rule cellwise_cong)
    fix x y z
    show "(if \<exists>i\<in>set js. P i x y z then H x y z (cellAt c x y z) else cellAt c x y z) =
          fold (\<lambda>i cl. if P i x y z then H x y z cl else cl) js (cellAt c x y z)"
    proof (rule sym, rule fold_sweep [OF \<open>distinct js\<close>])
      fix i j
      assume "P i x y z" "P j x y z"
      then show "i = j" by (rule one)
    qed
  qed
  with c'(1) show ?thesis by blast
qed

lemma in_range_iff: "i \<in> set [0..n - 1] \<longleftrightarrow> 0 \<le> i \<and> i < n"
  by auto

lemma forEach_grid:
  assumes step: "\<And>x y z d. shaped (c\<lparr>data := d\<rparr>) \<Longrightarrow>
             \<exists>c'. f x y z (c\<lparr>data := d\<rparr>) = Inr c' \<and>
               cellwise (c\<lparr>data := d\<rparr>) c' (onlyAt x y z (H x y z))"
    and "shaped c"
  shows "\<exists>c'. forEach [0 .. width (size_chunk c) - 1] (\<lambda>x.
                 forEach [0 .. height (size_chunk c) - 1] (\<lambda>y.
                   forEach [0 .. width (size_chunk c) - 1] (\<lambda>z. f x y z))) c = Inr c'
              \<and> cellwise c c' H"
proof -
  let ?xs = "[0 .. width (size_chunk c) - 1]" and ?ys = "[0 .. height (size_chunk c) - 1]"
  have oa: "onlyAt x y z (H x y z) = (\<lambda>x' y' z' cl. if x' = x \<and> y' = y \<and> z' = z then H x' y' z' cl else cl)"
    for x y z
    by (auto simp: onlyAt_def fun_eq_iff)
  have lz: "\<exists>c'. forEach ?xs (\<lambda>z. f x y z) (c\<lparr>data := d\<rparr>) = Inr c' \<and>
      cellwise (c\<lparr>data := d\<rparr>) c'
        (\<lambda>x' y' z' cl. if \<exists>k\<in>set ?xs. x' = x \<and> y' = y \<and> z' = k then H x' y' z' cl else cl)"
    if "shaped (c\<lparr>data := d\<rparr>)" for x y d
  proof (rule forEach_sweep [where P = "\<lambda>k x' y' z'. x' = x \<and> y' = y \<and> z' = k"])
    fix k d'
    assume "shaped (c\<lparr>data := d, data := d'\<rparr>)"
    then show "\<exists>c'. f x y k (c\<lparr>data := d, data := d'\<rparr>) = Inr c' \<and>
      cellwise (c\<lparr>data := d, data := d'\<rparr>) c'
        (\<lambda>x' y' z' cl. if x' = x \<and> y' = y \<and> z' = k then H x' y' z' cl else cl)"
      using step [of d' x y k] by (simp add: oa)
  qed (use that in simp_all)
  have ly: "\<exists>c'. forEach ?ys (\<lambda>y. forEach ?xs (\<lambda>z. f x y z)) (c\<lparr>data := d\<rparr>) = Inr c' \<and>
      cellwise (c\<lparr>data := d\<rparr>) c'
        (\<lambda>x' y' z' cl. if \<exists>j\<in>set ?ys. \<exists>k\<in>set ?xs. x' = x \<and> y' = j \<and> z' = k then H x' y' z' cl else cl)"
    if "shaped (c\<lparr>data := d\<rparr>)" for x d
  proof (rule forEach_sweep [where P = "\<lambda>j x' y' z'. \<exists>k\<in>set ?xs. x' = x \<and> y' = j \<and> z' = k"])
    fix j d'
    assume "shaped (c\<lparr>data := d, data := d'\<rparr>)"
    then show "\<exists>c'. forEach ?xs (\<lambda>z. f x j z) (c\<lparr>data := d, data := d'\<rparr>) = Inr c' \<and>
      cellwise (c\<lparr>data := d, data := d'\<rparr>) c'
        (\<lambda>x' y' z' cl. if \<exists>k\<in>set ?xs. x' = x \<and> y' = j \<and> z' = k then H x' y' z' cl else cl)"
      using lz [of d' x j] by simp
  qed (use that in auto)
  have "c\<lparr>data := data c\<rparr> = c" by simp
  have lx: "\<exists>c'. forEach ?xs (\<lambda>x. forEach ?ys (\<lambda>y. forEach ?xs (\<lambda>z. f x y z))) c = Inr c' \<and>
      cellwise c c'
        (\<lambda>x' y' z' cl. if \<exists>i\<in>set ?xs. \<exists>j\<in>set ?ys. \<exists>k\<in>set ?xs. x' = i \<and> y' = j \<and> z' = k
                        then H x' y' z' cl else cl)"
  proof (rule forEach_sweep [where P = "\<lambda>i x' y' z'. \<exists>j\<in>set ?ys. \<exists>k\<in>set ?xs. x' = i \<and> y' = j \<and> z' = k"])
    fix i d'
    assume "shaped (c\<lparr>data := d'\<rparr>)"
    then show "\<exists>c'. forEach ?ys (\<lambda>y. forEach ?xs (\<lambda>z. f i y z)) (c\<lparr>data := d'\<rparr>) = Inr c' \<and>
      cellwise (c\<lparr>data := d'\<rparr>) c'
        (\<lambda>x' y' z' cl. if \<exists>j\<in>set ?ys. \<exists>k\<in>set ?xs. x' = i \<and> y' = j \<and> z' = k then H x' y' z' cl else cl)"
      using ly [of d' i] by simp
  qed (use \<open>shaped c\<close> in auto)
  then obtain c' where c': "forEach ?xs (\<lambda>x. forEach ?ys (\<lambda>y. forEach ?xs (\<lambda>z. f x y z))) c = Inr c'"
    "cellwise c c'
        (\<lambda>x' y' z' cl. if \<exists>i\<in>set ?xs. \<exists>j\<in>set ?ys. \<exists>k\<in>set ?xs. x' = i \<and> y' = j \<and> z' = k
                        then H x' y' z' cl else cl)"
    by blast
  have "cellwise c c' H"
    using c'(2)
  proof (rule cellwise_cong)
    fix x y z
    assume "inBounds c x y z"
    then have "\<exists>i\<in>set ?xs. \<exists>j\<in>set ?ys. \<exists>k\<in>set ?xs. x = i \<and> y = j \<and> z = k"
      by (simp add: inBounds_iff)
    then show "H x y z (cellAt c x y z) =
      (if \<exists>i\<in>set ?xs. \<exists>j\<in>set ?ys. \<exists>k\<in>set ?xs. x = i \<and> y = j \<and> z = k
       then H x y z (cellAt c x y z) else cellAt c x y z)"
      by simp
  qed
  with c'(1) show ?thesis by blast
qed

lemma cellwise_out:
  assumes "shaped c" "\<not> inBounds c x y z"
  shows "cellwise c c (onlyAt x y z h)"
  using cellwise_refl [OF assms(1)] assms(2) by (auto simp: cellwise_def onlyAt_def)

lemma cellwise_keep:
  assumes "shaped c" "inBounds c x y z \<Longrightarrow> h (cellAt c x y z) = cellAt c x y z"
  shows "cellwise c c (onlyAt x y z h)"
  using cellwise_refl [OF assms(1)] assms(2) by (auto simp: cellwise_def onlyAt_def)

lemma setBlockId_cellwise':
  assumes "shaped c" "inBounds c x y z \<Longrightarrow> h (cellAt c x y z) = (cellAt c x y z)\<lparr>id_block := b\<rparr>"
  shows "\<exists>c'. setBlockId c x y z b = Inr c' \<and> cellwise c c' (onlyAt x y z h)"
proof -
  from setBlockId_cellwise [OF assms(1), of x y z b]
  obtain c' where c': "setBlockId c x y z b = Inr c'"
    "cellwise c c' (onlyAt x y z (\<lambda>cl. cl\<lparr>id_block := b\<rparr>))"
    by blast
  have "cellwise c c' (onlyAt x y z h)"
    using c'(2) assms(2) by (rule cellwise_onlyAt_cong)
  with c'(1) show ?thesis by blast
qed

lemma resourceStep_cellwise:
  assumes "shaped c"
  shows "\<exists>c'. resourceStep env r x y z c = Inr c' \<and>
           cellwise c c' (onlyAt x y z (stampResource env c r x y z))"
proof (cases "noise3d env (seed (params c))
           (real_of_int (vx (position c) + x) / scale_x r)
           (real_of_int (vy (position c) + y) / scale_y r)
           (real_of_int (vz (position c) + z) / scale_z r) > scarcity r")
  case True
  then have "resourceStep env r x y z c = setBlockId c x y z (res_id r)"
    by (simp add: resourceStep_def)
  moreover have "\<exists>c'. setBlockId c x y z (res_id r) = Inr c' \<and>
      cellwise c c' (onlyAt x y z (stampResource env c r x y z))"
    using assms True by (intro setBlockId_cellwise') (simp_all add: stampResource_def)
  ultimately show ?thesis by simp
next
  case False
  then have "resourceStep env r x y z c = Inr c"
    by (simp add: resourceStep_def)
  moreover have "cellwise c c (onlyAt x y z (stampResource env c r x y z))"
    using assms False by (intro cellwise_keep) (simp_all add: stampResource_def)
  ultimately show ?thesis by simp
qed

lemma stampResource_data [simp]: "stampResource env (c\<lparr>data := d\<rparr>) = stampResource env c"
  by (simp add: stampResource_def fun_eq_iff)

lemma columnHeight_data [simp]: "columnHeight env (c\<lparr>data := d\<rparr>) = columnHeight env c"
  by (simp add: columnHeight_def fun_eq_iff)

lemma overlayCell_data [simp]: "overlayCell (c\<lparr>data := d\<rparr>) = overlayCell c"
  by (simp add: overlayCell_def fun_eq_iff)

lemma generateResources_cellwise:
  assumes "shaped c"
  shows "\<exists>c'. generateResources env c = Inr c' \<and>
           cellwise c c' (\<lambda>x y z. fold (\<lambda>r. stampResource env c r x y z) (resources env))"
  unfolding generateResources_def
proof (rule forEach_cellwise [OF _ assms])
  fix r d
  assume s: "shaped (c\<lparr>data := d\<rparr>)"
  have "\<exists>c'. forEach [0 .. width (size_chunk (c\<lparr>data := d\<rparr>)) - 1] (\<lambda>x.
                 forEach [0 .. height (size_chunk (c\<lparr>data := d\<rparr>)) - 1] (\<lambda>y.
                   forEach [0 .. width (size_chunk (c\<lparr>data := d\<rparr>)) - 1] (\<lambda>z.
                     resourceStep env r x y z))) (c\<lparr>data := d\<rparr>) = Inr c'
              \<and> cellwise (c\<lparr>data := d\<rparr>) c' (stampResource env c r)"
  proof (rule forEach_grid [OF _ s])
    fix x y z d'
    assume "shaped (c\<lparr>data := d, data := d'\<rparr>)"
    from resourceStep_cellwise [OF this, of env r x y z]
    show "\<exists>c'. resourceStep env r x y z (c\<lparr>data := d, data := d'\<rparr>) = Inr c' \<and>
            cellwise (c\<lparr>data := d, data := d'\<rparr>) c' (onlyAt x y z (stampResource env c r x y z))"
      by simp
  qed
  then show "\<exists>c'. forEach [0 .. width (size_chunk c) - 1] (\<lambda>x.
                 forEach [0 .. height (size_chunk c) - 1] (\<lambda>y.
                   forEach [0 .. width (size_chunk c) - 1] (\<lambda>z.
                     resourceStep env r x y z))) (c\<lparr>data := d\<rparr>) = Inr c'
              \<and> cellwise (c\<lparr>data := d\<rparr>) c' (\<lambda>x y z. stampResource env c r x y z)"
    by simp
qed

lemma playerChangeStep_cellwise:
  assumes "shaped c"
  shows "\<exists>c'. playerChangeStep x y z c = Inr c' \<and> cellwise c c' (onlyAt x y z (overlayCell c x y z))"
proof (cases "dataStore c (vx (position c), vz (position c), x, y, z)")
  case None
  then have "playerChangeStep x y z c = Inr c"
    by (simp add: playerChangeStep_def contains_def)
  moreover have "cellwise c c (onlyAt x y z (overlayCell c x y z))"
    using assms None by (intro cellwise_keep) (simp_all add: overlayCell_def)
  ultimately show ?thesis by simp
next
  case (Some b)
  then have "playerChangeStep x y z c = setBlockId c x y z b"
    by (simp add: playerChangeStep_def contains_def get_def)
  moreover have "\<exists>c'. setBlockId c x y z b = Inr c' \<and>
      cellwise c c' (onlyAt x y z (overlayCell c x y z))"
    using assms Some by (intro setBlockId_cellwise') (simp_all add: overlayCell_def)
  ultimately show ?thesis by simp
qed

lemma loadPlayerChanges_cellwise:
  assumes "shaped c"
  shows "\<exists>c'. loadPlayerChanges c = Inr c' \<and> cellwise c c' (overlayCell c)"
  unfolding loadPlayerChanges_def
proof (rule forEach_grid [OF _ assms])
  fix x y z d
  assume "shaped (c\<lparr>data := d\<rparr>)"
  from playerChangeStep_cellwise [OF this, of x y z]
  show "\<exists>c'. playerChangeStep x y z (c\<lparr>data := d\<rparr>) = Inr c' \<and>
          cellwise (c\<lparr>data := d\<rparr>) c' (onlyAt x y z (overlayCell c x y z))"
    by simp
qed

lemma terrainRest_cellwise:
  assumes "shaped c"
    and "inBounds c x y z \<Longrightarrow> \<not> (y < h \<and> id_block (cellAt c x y z) = empty_id env)"
  shows "\<exists>c'. terrainRest env x z h y c = Inr c' \<and> cellwise c c' (onlyAt x y z (fillCell env h y))"
proof -
  consider "y = h" | "y > h" | "y < h" by linarith
  then show ?thesis
  proof cases
    case 1
    then have "terrainRest env x z h y c = setBlockId c x y z (grass_id env)"
      by (simp add: terrainRest_def)
    moreover have "\<exists>c'. setBlockId c x y z (grass_id env) = Inr c' \<and>
        cellwise c c' (onlyAt x y z (fillCell env h y))"
      using assms(1) 1 by (intro setBlockId_cellwise') (simp_all add: fillCell_def)
    ultimately show ?thesis by simp
  next
    case 2
    then have "terrainRest env x z h y c = setBlockId c x y z (empty_id env)"
      by (simp add: terrainRest_def)
    moreover have "\<exists>c'. setBlockId c x y z (empty_id env) = Inr c' \<and>
        cellwise c c' (onlyAt x y z (fillCell env h y))"
      using assms(1) 2 by (intro setBlockId_cellwise') (simp_all add: fillCell_def)
    ultimately show ?thesis by simp
  next
    case 3
    then have "terrainRest env x z h y c = Inr c"
      by (simp add: terrainRest_def)
    moreover have "cellwise c c (onlyAt x y z (fillCell env h y))"
      using assms 3 by (intro cellwise_keep) (simp_all add: fillCell_def)
    ultimately show ?thesis by simp
  qed
qed

lemma terrainStep_cellwise:
  assumes "shaped c"
  shows "\<exists>c'. terrainStep env x z h y c = Inr c' \<and> cellwise c c' (onlyAt x y z (fillCell env h y))"
proof (cases "inBounds c x y z")
  case False
  then have "terrainStep env x z h y c = Inr c"
    by (auto simp: terrainStep_def terrainRest_def getBlock_def setBlockId_def)
  then show ?thesis
    using cellwise_out [OF assms False] by simp
next
  case True
  note g = getBlock_in [OF assms True]
  show ?thesis
  proof (cases "y < h \<and> id_block (cellAt c x y z) = empty_id env")
    case dirt: True
    then have "terrainStep env x z h y c = setBlockId c x y z (dirt_id env)"
      by (simp add: terrainStep_def g)
    moreover have "\<exists>c'. setBlockId c x y z (dirt_id env) = Inr c' \<and>
        cellwise c c' (onlyAt x y z (fillCell env h y))"
      using assms dirt by (intro setBlockId_cellwise') (simp_all add: fillCell_def)
    ultimately show ?thesis by simp
  next
    case False
    then have "terrainStep env x z h y c = terrainRest env x z h y c"
      by (auto simp: terrainStep_def g)
    then show ?thesis
      using terrainRest_cellwise [OF assms, of x y z h env] False by simp
  qed
qed

lemma generateTerrain_cellwise:
  assumes "shaped c"
  shows "\<exists>c'. generateTerrain env c = Inr c' \<and>
           cellwise c c' (\<lambda>x y z. fillCell env (columnHeight env c x z) y)"
proof -
  let ?xs = "[0 .. width (size_chunk c) - 1]" and ?ys = "[0 .. height (size_chunk c)]"
  let ?H = "\<lambda>x y z. fillCell env (columnHeight env c x z) y"
  have oa: "onlyAt x y z (fillCell env (columnHeight env c x z) y) =
      (\<lambda>x' y' z' cl. if x' = x \<and> y' = y \<and> z' = z then ?H x' y' z' cl else cl)"
    for x y z
    by (auto simp: onlyAt_def fun_eq_iff)
  have ly: "\<exists>c'. forEach ?ys (terrainStep env x z (columnHeight env c x z)) (c\<lparr>data := d\<rparr>) = Inr c' \<and>
      cellwise (c\<lparr>data := d\<rparr>) c'
        (\<lambda>x' y' z' cl. if \<exists>j\<in>set ?ys. x' = x \<and> y' = j \<and> z' = z then ?H x' y' z' cl else cl)"
    if "shaped (c\<lparr>data := d\<rparr>)" for x z d
  proof (rule forEach_sweep [where P = "\<lambda>j x' y' z'. x' = x \<and> y' = j \<and> z' = z"])
    fix j d'
    assume "shaped (c\<lparr>data := d, data := d'\<rparr>)"
    from terrainStep_cellwise [OF this, of env x z "columnHeight env c x z" j]
    show "\<exists>c'. terrainStep env x z (columnHeight env c x z) j (c\<lparr>data := d, data := d'\<rparr>) = Inr c' \<and>
      cellwise (c\<lparr>data := d, data := d'\<rparr>) c'
        (\<lambda>x' y' z' cl. if x' = x \<and> y' = j \<and> z' = z then ?H x' y' z' cl else cl)"
      by (simp add: oa)
  qed (use that in simp_all)
  have lz: "\<exists>c'. forEach ?xs (\<lambda>z c'. forEach [0 .. height (size_chunk c')]
                   (terrainStep env x z (columnHeight env c' x z)) c') (c\<lparr>data := d\<rparr>) = Inr c' \<and>
      cellwise (c\<lparr>data := d\<rparr>) c'
        (\<lambda>x' y' z' cl. if \<exists>k\<in>set ?xs. \<exists>j\<in>set ?ys. x' = x \<and> y' = j \<and> z' = k then ?H x' y' z' cl else cl)"
    if "shaped (c\<lparr>data := d\<rparr>)" for x d
  proof (rule forEach_sweep [where P = "\<lambda>k x' y' z'. \<exists>j\<in>set ?ys. x' = x \<and> y' = j \<and> z' = k"])
    fix k d'
    assume "shaped (c\<lparr>data := d, data := d'\<rparr>)"
    then show "\<exists>c'. forEach [0 .. height (size_chunk (c\<lparr>data := d, data := d'\<rparr>))]
            (terrainStep env x k (columnHeight env (c\<lparr>data := d, data := d'\<rparr>) x k))
            (c\<lparr>data := d, data := d'\<rparr>) = Inr c' \<and>
      cellwise (c\<lparr>data := d, data := d'\<rparr>) c'
        (\<lambda>x' y' z' cl. if \<exists>j\<in>set ?ys. x' = x \<and> y' = j \<and> z' = k then ?H x' y' z' cl else cl)"
      using ly [of d' x k] by simp
  qed (use that in auto)
  have lx: "\<exists>c'. forEach ?xs (\<lambda>x. forEach ?xs (\<lambda>z c'. forEach [0 .. height (size_chunk c')]
                   (terrainStep env x z (columnHeight env c' x z)) c')) c = Inr c' \<and>
      cellwise c c'
        (\<lambda>x' y' z' cl. if \<exists>i\<in>set ?xs. \<exists>k\<in>set ?xs. \<exists>j\<in>set ?ys. x' = i \<and> y' = j \<and> z' = k
                        then ?H x' y' z' cl else cl)"
  proof (rule forEach_sweep [where P = "\<lambda>i x' y' z'. \<exists>k\<in>set ?xs. \<exists>j\<in>set ?ys. x' = i \<and> y' = j \<and> z' = k"])
    fix i d'
    assume "shaped (c\<lparr>data := d'\<rparr>)"
    then show "\<exists>c'. forEach ?xs (\<lambda>z c'. forEach [0 .. height (size_chunk c')]
                   (terrainStep env i z (columnHeight env c' i z)) c') (c\<lparr>data := d'\<rparr>) = Inr c' \<and>
      cellwise (c\<lparr>data := d'\<rparr>) c'
        (\<lambda>x' y' z' cl. if \<exists>k\<in>set ?xs. \<exists>j\<in>set ?ys. x' = i \<and> y' = j \<and> z' = k then ?H x' y' z' cl else cl)"
      using lz [of d' i] by simp
  qed (use assms in auto)
  then obtain c' where c': "generateTerrain env c = Inr c'"
    "cellwise c c'
        (\<lambda>x' y' z' cl. if \<exists>i\<in>set ?xs. \<exists>k\<in>set ?xs. \<exists>j\<in>set ?ys. x' = i \<and> y' = j \<and> z' = k
                        then ?H x' y' z' cl else cl)"
    unfolding generateTerrain_def by blast
  have "cellwise c c' ?H"
    using c'(2)
  proof (rule cellwise_cong)
    fix x y z
    assume "inBounds c x y z"
    then have "\<exists>i\<in>set ?xs. \<exists>k\<in>set ?xs. \<exists>j\<in>set ?ys. x = i \<and> y = j \<and> z = k"
      by (simp add: inBounds_iff)
    then show "?H x y z (cellAt c x y z) =
      (if \<exists>i\<in>set ?xs. \<exists>k\<in>set ?xs. \<exists>j\<in>set ?ys. x = i \<and> y = j \<and> z = k
       then ?H x y z (cellAt c x y z) else cellAt c x y z)"
      by simp
  qed
  with c'(1) show ?thesis by blast
qed

lemma initializeTerrain_shaped: "shaped (initializeTerrain env c)"
  by (simp add: shaped_def initializeTerrain_def list_all_length)

lemma initializeTerrain_fields [simp]:
  "size_chunk (initializeTerrain env c) = size_chunk c"
  "params (initializeTerrain env c) = params c"
  "dataStore (initializeTerrain env c) = dataStore c"
  "position (initializeTerrain env c) = position c"
  "children (initializeTerrain env c) = children c"
  "loaded (initializeTerrain env c) = loaded c"
  by (simp_all add: initializeTerrain_def)

lemma inBounds_initializeTerrain [simp]:
  "inBounds (initializeTerrain env c) x y z = inBounds c x y z"
  by (simp add: inBounds_def)

lemma cellAt_initializeTerrain:
  "inBounds c x y z \<Longrightarrow>
     cellAt (initializeTerrain env c) x y z = \<lparr>id_block = empty_id env, instanceId = None\<rparr>"
  by (simp add: cellAt_def initializeTerrain_def inBounds_iff)

section \<open>Loops with an invariant\<close>

lemma forEach_append: "forEach (as @ bs) f s = andThen (forEach as f s) (forEach bs f)"
proof (induction as arbitrary: s)
  case Nil
  then show ?case by simp
next
  case (Cons a as)
  then show ?case
    by (cases "f a s") simp_all
qed

lemma forEach_map: "forEach (map h js) f s = forEach js (\<lambda>j. f (h j)) s"
proof (induction js arbitrary: s)
  case Nil
  then show ?case by simp
next
  case (Cons j js)
  then show ?case
    by (cases "f (h j) s") simp_all
qed

lemma forEach_product:
  "forEach xs (\<lambda>x. forEach ys (f x)) s = forEach (List.product xs ys) (\<lambda>(x, y). f x y) s"
proof (induction xs arbitrary: s)
  case Nil
  then show ?case by simp
next
  case (Cons x xs)
  have "forEach (List.product (x # xs) ys) (\<lambda>(x, y). f x y) s =
      andThen (forEach ys (f x) s) (forEach (List.product xs ys) (\<lambda>(x, y). f x y))"
    by (simp add: forEach_append forEach_map)
  also have "\<dots> = andThen (forEach ys (f x) s) (forEach xs (\<lambda>x. forEach ys (f x)))"
    using Cons.IH by (cases "forEach ys (f x) s") simp_all
  finally show ?case by simp
qed

lemma forEach_grid_flat:
  "forEach xs (\<lambda>x. forEach ys (\<lambda>y. forEach zs (\<lambda>z. f x y z))) s =
     forEach (List.product xs (List.product ys zs)) (\<lambda>(x, y, z). f x y z) s"
proof -
  have "forEach xs (\<lambda>x. forEach ys (\<lambda>y. forEach zs (\<lambda>z. f x y z))) s =
      forEach xs (\<lambda>x. forEach (List.product ys zs) (\<lambda>(y, z). f x y z)) s"
  proof -
    have "(\<lambda>x. forEach ys (\<lambda>y. forEach zs (\<lambda>z. f x y z))) =
        (\<lambda>x. forEach (List.product ys zs) (\<lambda>(y, z). f x y z))"
      by (rule ext, rule ext) (rule forEach_product)
    then show ?thesis by simp
  qed
  also have "\<dots> = forEach (List.product xs (List.product ys zs)) (\<lambda>(x, y, z). f x y z) s"
    by (rule forEach_product)
  finally show ?thesis .
qed

lemma forEach_invariant_gen:
  assumes step: "\<And>pre i post s. js = pre @ i # post \<Longrightarrow> I pre s \<Longrightarrow>
             \<exists>s'. f i s = Inr s' \<and> I (pre @ [i]) s'"
  shows "js = pre @ rest \<Longrightarrow> I pre s \<Longrightarrow> \<exists>s'. forEach rest f s = Inr s' \<and> I js s'"
proof (induction rest arbitrary: pre s)
  case Nil
  then show ?case by simp
next
  case (Cons i rest)
  from step [OF Cons.prems] obtain s1 where s1: "f i s = Inr s1" "I (pre @ [i]) s1"
    by blast
  have "js = (pre @ [i]) @ rest"
    using Cons.prems(1) by simp
  from Cons.IH [OF this s1(2)] obtain s' where "forEach rest f s1 = Inr s'" "I js s'"
    by blast
  then show ?case
    using s1(1) by simp
qed

lemma forEach_invariant:
  assumes "I [] s"
    and "\<And>pre i post s. js = pre @ i # post \<Longrightarrow> I pre s \<Longrightarrow>
             \<exists>s'. f i s = Inr s' \<and> I (pre @ [i]) s'"
  shows "\<exists>s'. forEach js f s = Inr s' \<and> I js s'"
  using forEach_invariant_gen [of js I f "[]" js s] assms by simp

lemma forEach_partial_gen:
  assumes step: "\<And>pre i post s s'. js = pre @ i # post \<Longrightarrow> I pre s \<Longrightarrow> f i s = Inr s' \<Longrightarrow>
             I (pre @ [i]) s'"
  shows "js = pre @ rest \<Longrightarrow> I pre s \<Longrightarrow> forEach rest f s = Inr s' \<Longrightarrow> I js s'"
proof (induction rest arbitrary: pre s)
  case Nil
  then show ?case by simp
next
  case (Cons i rest)
  from Cons.prems(3) obtain s1 where s1: "f i s = Inr s1" "forEach rest f s1 = Inr s'"
    by (auto simp: andThen_eq_Inr)
  have i: "I (pre @ [i]) s1"
    using step [OF Cons.prems(1,2) s1(1)] .
  have "js = (pre @ [i]) @ rest"
    using Cons.prems(1) by simp
  from Cons.IH [OF this i s1(2)] show ?case .
qed

lemma forEach_partial:
  assumes "I [] s"
    and "\<And>pre i post s s'. js = pre @ i # post \<Longrightarrow> I pre s \<Longrightarrow> f i s = Inr s' \<Longrightarrow>
             I (pre @ [i]) s'"
    and "forEach js f s = Inr s'"
  shows "I js s'"
  using forEach_partial_gen [of js I f "[]" js s s'] assms by simp

section \<open>Coordinates and occlusion\<close>

lemma set_coords: "(x, y, z) \<in> set (coords c) \<longleftrightarrow> inBounds c x y z"
  by (auto simp: coords_def inBounds_iff)

lemma distinct_coords: "distinct (coords c)"
  by (simp add: coords_def distinct_product)

lemma length_coords:
  "length (coords c) =
     nat (width (size_chunk c)) * (nat (height (size_chunk c)) * nat (width (size_chunk c)))"
  by (simp add: coords_def)

lemma coords_data [simp]: "coords (c\<lparr>data := d\<rparr>) = coords c"
  by (simp add: coords_def)

lemma neighbourId_shaped:
  assumes "shaped c"
  shows "neighbourId env c x y z =
           Inr (if inBounds c x y z then id_block (cellAt c x y z) else empty_id env)"
  using assms by (simp add: neighbourId_def getBlock_in getBlock_out)

lemma nonEmptyAt_shaped:
  assumes "shaped c"
  shows "nonEmptyAt env c x y z \<longleftrightarrow> inBounds c x y z \<and> id_block (cellAt c x y z) \<noteq> empty_id env"
  using assms by (cases "inBounds c x y z") (simp_all add: nonEmptyAt_def getBlock_in getBlock_out)

lemma isBlockObscured_shaped:
  assumes "shaped c"
  shows "isBlockObscured env c x y z = Inr (allNeighboursNonEmpty env c x y z)"
  using assms
  by (simp add: isBlockObscured_def neighbourId_shaped allNeighboursNonEmpty_def nonEmptyAt_shaped)

lemma nonEmptyAt_cong:
  assumes "shaped c" "shaped c'" "size_chunk c' = size_chunk c"
    and "\<And>x y z. inBounds c x y z \<Longrightarrow> id_block (cellAt c' x y z) = id_block (cellAt c x y z)"
  shows "nonEmptyAt env c' x y z = nonEmptyAt env c x y z"
proof -
  have "inBounds c' x y z = inBounds c x y z"
    using assms(3) by (simp add: inBounds_def)
  then show ?thesis
    using assms(1,2,4) by (auto simp: nonEmptyAt_shaped)
qed

lemma allNeighboursNonEmpty_cong:
  assumes "shaped c" "shaped c'" "size_chunk c' = size_chunk c"
    and "\<And>x y z. inBounds c x y z \<Longrightarrow> id_block (cellAt c' x y z) = id_block (cellAt c x y z)"
  shows "allNeighboursNonEmpty env c' x y z = allNeighboursNonEmpty env c x y z"
  unfolding allNeighboursNonEmpty_def
  by (simp add: nonEmptyAt_cong [OF assms])

section \<open>The mesh table\<close>

lemma fold_map_upd:
  "fold (\<lambda>b ms. ms(b \<mapsto> v)) bs m = (\<lambda>b. if b \<in> set bs then Some v else m b)"
  by (induction bs arbitrary: m) (auto simp: fun_eq_iff)

lemma newMeshes_apply:
  "newMeshes env cap b =
     (if b \<in> set (block_ids env) \<and> b \<noteq> empty_id env then Some (newMesh cap) else None)"
  by (simp add: newMeshes_def fold_map_upd)

section \<open>The meshing loop\<close>

lemma gridPart_skip:
  assumes "gridPart env c0 pre c" "inBounds c0 x y z"
    and "id_block (cellAt c0 x y z) = empty_id env \<or> allNeighboursNonEmpty env c0 x y z"
  shows "gridPart env c0 (pre @ [(x, y, z)]) c"
proof -
  have n: "instanceId (cellAt c x y z) = None" if "(x, y, z) \<notin> set pre"
    using assms(1,2) that by (simp add: gridPart_def)
  have "instanceId (cellAt c x y z) = None"
  proof (cases "(x, y, z) \<in> set pre")
    case True
    then show ?thesis
      using assms(1,3) by (simp add: gridPart_def)
  next
    case False
    then show ?thesis by (rule n)
  qed
  then show ?thesis
    using assms unfolding gridPart_def by auto
qed

lemma tablePart_skip:
  assumes "tablePart env cap pre c ms"
  shows "tablePart env cap (pre @ [p]) c ms"
  unfolding tablePart_def
proof (intro conjI allI impI)
  fix b
  show "(ms b \<noteq> None) = (b \<in> set (block_ids env) \<and> b \<noteq> empty_id env)"
    using assms by (simp add: tablePart_def)
next
  fix b m
  assume m: "ms b = Some m"
  then show "maxCount m = cap" "0 \<le> count m"
    using assms by (simp_all add: tablePart_def)
  have "count m \<le> int (length pre)"
    using assms m by (simp add: tablePart_def)
  then show "count m \<le> int (length (pre @ [p]))"
    by simp
next
  fix b m i
  assume "ms b = Some m" "0 \<le> i \<and> i < count m"
  then have "\<exists>x y z. (x, y, z) \<in> set pre \<and> matrix m i = Some (x, y, z) \<and>
              id_block (cellAt c x y z) = b \<and> instanceId (cellAt c x y z) = Some i"
    using assms unfolding tablePart_def by blast
  then show "\<exists>x y z. (x, y, z) \<in> set (pre @ [p]) \<and> matrix m i = Some (x, y, z) \<and>
              id_block (cellAt c x y z) = b \<and> instanceId (cellAt c x y z) = Some i"
    by auto
qed

lemma linkPart_skip:
  assumes "linkPart pre c ms" "instanceId (cellAt c x y z) = None"
  shows "linkPart (pre @ [(x, y, z)]) c ms"
  using assms unfolding linkPart_def by auto

lemma cellAt_putCell_same:
  "shaped c \<Longrightarrow> inBounds c x y z \<Longrightarrow> cellAt (putCell c x y z cl) x y z = cl"
  by (simp add: cellAt_putCell)

lemma cellAt_putCell_other:
  "shaped c \<Longrightarrow> inBounds c x y z \<Longrightarrow> inBounds c x' y' z' \<Longrightarrow> (x', y', z') \<noteq> (x, y, z) \<Longrightarrow>
     cellAt (putCell c x y z cl) x' y' z' = cellAt c x' y' z'"
  by (auto simp: cellAt_putCell)

lemma gridPart_inBounds:
  assumes "gridPart env c0 pre c"
  shows "inBounds c x y z = inBounds c0 x y z"
  using assms by (auto simp: gridPart_def inBounds_def)

lemma gridPart_shaped: "gridPart env c0 pre c \<Longrightarrow> shaped c"
  by (simp add: gridPart_def)

lemma gridPart_frame: "gridPart env c0 pre c \<Longrightarrow> \<exists>d. c = c0\<lparr>data := d\<rparr>"
  by (simp add: gridPart_def)

lemma gridPart_id:
  "gridPart env c0 pre c \<Longrightarrow> inBounds c0 x y z \<Longrightarrow>
     id_block (cellAt c x y z) = id_block (cellAt c0 x y z)"
  by (simp add: gridPart_def)

lemma gridPart_fresh:
  "gridPart env c0 pre c \<Longrightarrow> inBounds c0 x y z \<Longrightarrow> (x, y, z) \<notin> set pre \<Longrightarrow>
     instanceId (cellAt c x y z) = None"
  by (simp add: gridPart_def)

lemma gridPart_done:
  "gridPart env c0 pre c \<Longrightarrow> (x, y, z) \<in> set pre \<Longrightarrow>
     (instanceId (cellAt c x y z) = None \<longleftrightarrow>
        id_block (cellAt c0 x y z) = empty_id env \<or> allNeighboursNonEmpty env c0 x y z)"
  by (simp add: gridPart_def)

lemma tablePart_dom:
  "tablePart env cap pre c ms \<Longrightarrow> (ms b \<noteq> None) = (b \<in> set (block_ids env) \<and> b \<noteq> empty_id env)"
  by (simp add: tablePart_def)

lemma tablePart_mesh:
  assumes "tablePart env cap pre c ms" "ms b = Some m"
  shows "maxCount m = cap" "0 \<le> count m" "count m \<le> int (length pre)"
  using assms unfolding tablePart_def by blast+

lemma tablePart_slot:
  assumes "tablePart env cap pre c ms" "ms b = Some m" "0 \<le> i" "i < count m"
  shows "\<exists>x y z. (x, y, z) \<in> set pre \<and> matrix m i = Some (x, y, z) \<and>
           id_block (cellAt c x y z) = b \<and> instanceId (cellAt c x y z) = Some i"
  using assms unfolding tablePart_def by blast

lemma linkPart_slot:
  assumes "linkPart pre c ms" "(x, y, z) \<in> set pre" "instanceId (cellAt c x y z) = Some i"
  shows "\<exists>m. ms (id_block (cellAt c x y z)) = Some m \<and> 0 \<le> i \<and> i < count m \<and>
           matrix m i = Some (x, y, z)"
  using assms unfolding linkPart_def by blast

lemma setMatrixAt_fields:
  "count (setMatrixAt m i p) = count m"
  "maxCount (setMatrixAt m i p) = maxCount m"
  "matrix (setMatrixAt m i p) = (if 0 \<le> i \<and> i < maxCount m then (matrix m)(i := p) else matrix m)"
  by (simp_all add: setMatrixAt_def)

lemma tablePart_place:
  assumes t: "tablePart env cap pre c ms"
    and s: "shaped c"
    and q: "inBounds c x y z" "(x, y, z) \<notin> set pre"
    and m: "ms (id_block (cellAt c x y z)) = Some m" "count m < cap"
    and pre: "\<And>x y z. (x, y, z) \<in> set pre \<Longrightarrow> inBounds c x y z"
  shows "tablePart env cap (pre @ [(x, y, z)])
           (putCell c x y z ((cellAt c x y z)\<lparr>instanceId := Some (count m)\<rparr>))
           (ms(id_block (cellAt c x y z) \<mapsto>
              (setMatrixAt m (count m) (Some (x, y, z)))\<lparr>count := count m + 1\<rparr>))"
proof -
  let ?b = "id_block (cellAt c x y z)"
  let ?n = "count m"
  let ?c' = "putCell c x y z ((cellAt c x y z)\<lparr>instanceId := Some ?n\<rparr>)"
  let ?m' = "(setMatrixAt m ?n (Some (x, y, z)))\<lparr>count := ?n + 1\<rparr>"
  let ?ms' = "ms(?b \<mapsto> ?m')"
  note tm = tablePart_mesh [OF t m(1)]
  have m': "count ?m' = ?n + 1" "maxCount ?m' = cap" "matrix ?m' = (matrix m)(?n := Some (x, y, z))"
    using tm m(2) by (simp_all add: setMatrixAt_fields)
  have old: "cellAt ?c' x' y' z' = cellAt c x' y' z'" if "(x', y', z') \<in> set pre" for x' y' z'
  proof -
    have "(x', y', z') \<noteq> (x, y, z)"
      using that q(2) by auto
    then show ?thesis
      by (rule cellAt_putCell_other [OF s q(1) pre [OF that]])
  qed
  have new: "cellAt ?c' x y z = (cellAt c x y z)\<lparr>instanceId := Some ?n\<rparr>"
    by (rule cellAt_putCell_same [OF s q(1)])
  have dom: "(?ms' b \<noteq> None) = (b \<in> set (block_ids env) \<and> b \<noteq> empty_id env)" for b
  proof (cases "b = ?b")
    case True
    have "ms ?b \<noteq> None" using m(1) by simp
    then have "?b \<in> set (block_ids env) \<and> ?b \<noteq> empty_id env"
      using tablePart_dom [OF t, of ?b] by simp
    then show ?thesis using True by simp
  next
    case False
    then show ?thesis
      using tablePart_dom [OF t, of b] by simp
  qed
  have slot_other: "\<exists>x' y' z'. (x', y', z') \<in> set (pre @ [(x, y, z)]) \<and> matrix k i = Some (x', y', z') \<and>
            id_block (cellAt ?c' x' y' z') = b \<and> instanceId (cellAt ?c' x' y' z') = Some i"
    if "ms b = Some k" "0 \<le> i" "i < count k" for b k i
  proof -
    from tablePart_slot [OF t that] obtain x' y' z' where w: "(x', y', z') \<in> set pre"
      "matrix k i = Some (x', y', z')"
      "id_block (cellAt c x' y' z') = b" "instanceId (cellAt c x' y' z') = Some i"
      by blast
    have "(x', y', z') \<in> set (pre @ [(x, y, z)])"
      using w(1) by simp
    then show ?thesis
      using w(2,3,4) old [OF w(1)] by metis
  qed
  have slot_new: "\<exists>x' y' z'. (x', y', z') \<in> set (pre @ [(x, y, z)]) \<and> matrix ?m' i = Some (x', y', z') \<and>
            id_block (cellAt ?c' x' y' z') = ?b \<and> instanceId (cellAt ?c' x' y' z') = Some i"
    if i: "0 \<le> i" "i < ?n + 1" for i
  proof (cases "i = ?n")
    case True
    have "(x, y, z) \<in> set (pre @ [(x, y, z)])" by simp
    moreover have "matrix ?m' i = Some (x, y, z)"
      using True m'(3) by simp
    moreover have "id_block (cellAt ?c' x y z) = ?b" "instanceId (cellAt ?c' x y z) = Some i"
      using new True by simp_all
    ultimately show ?thesis by blast
  next
    case False
    then have "i < ?n"
      using i by simp
    from slot_other [OF m(1) i(1) this] obtain x' y' z' where
      w: "(x', y', z') \<in> set (pre @ [(x, y, z)])" "matrix m i = Some (x', y', z')"
      "id_block (cellAt ?c' x' y' z') = ?b" "instanceId (cellAt ?c' x' y' z') = Some i"
      by blast
    have "matrix ?m' i = Some (x', y', z')"
      using w(2) False m'(3) by simp
    then show ?thesis
      using w(1,3,4) by blast
  qed
  show ?thesis
    unfolding tablePart_def
  proof (intro conjI allI impI)
    fix b
    show "(?ms' b \<noteq> None) = (b \<in> set (block_ids env) \<and> b \<noteq> empty_id env)"
      by (rule dom)
  next
    fix b k
    assume k: "?ms' b = Some k"
    show "maxCount k = cap"
    proof (cases "b = ?b")
      case True
      then show ?thesis using k m'(2) by auto
    next
      case False
      then show ?thesis using k tablePart_mesh(1) [OF t, of b k] by simp
    qed
    show "0 \<le> count k"
    proof (cases "b = ?b")
      case True
      then show ?thesis using k m'(1) tm(2) by auto
    next
      case False
      then show ?thesis using k tablePart_mesh(2) [OF t, of b k] by simp
    qed
    show "count k \<le> int (length (pre @ [(x, y, z)]))"
    proof (cases "b = ?b")
      case True
      then show ?thesis using k m'(1) tm(3) by auto
    next
      case False
      then show ?thesis using k tablePart_mesh(3) [OF t, of b k] by simp
    qed
  next
    fix b k i
    assume k: "?ms' b = Some k" and i: "0 \<le> i \<and> i < count k"
    show "\<exists>x' y' z'. (x', y', z') \<in> set (pre @ [(x, y, z)]) \<and> matrix k i = Some (x', y', z') \<and>
            id_block (cellAt ?c' x' y' z') = b \<and> instanceId (cellAt ?c' x' y' z') = Some i"
    proof (cases "b = ?b")
      case True
      then have kk: "k = ?m'" using k by simp
      have "0 \<le> i" "i < ?n + 1"
        using i kk m'(1) by simp_all
      from slot_new [OF this] show ?thesis
        using True kk by simp
    next
      case False
      then have "ms b = Some k" using k by simp
      from slot_other [OF this] i show ?thesis by blast
    qed
  qed
qed

lemma linkPart_place:
  assumes l: "linkPart pre c ms"
    and s: "shaped c"
    and q: "inBounds c x y z" "(x, y, z) \<notin> set pre"
    and m: "ms (id_block (cellAt c x y z)) = Some m" "count m < maxCount m" "0 \<le> count m"
    and pre: "\<And>x y z. (x, y, z) \<in> set pre \<Longrightarrow> inBounds c x y z"
  shows "linkPart (pre @ [(x, y, z)])
           (putCell c x y z ((cellAt c x y z)\<lparr>instanceId := Some (count m)\<rparr>))
           (ms(id_block (cellAt c x y z) \<mapsto>
              (setMatrixAt m (count m) (Some (x, y, z)))\<lparr>count := count m + 1\<rparr>))"
proof -
  let ?b = "id_block (cellAt c x y z)"
  let ?n = "count m"
  let ?c' = "putCell c x y z ((cellAt c x y z)\<lparr>instanceId := Some ?n\<rparr>)"
  let ?m' = "(setMatrixAt m ?n (Some (x, y, z)))\<lparr>count := ?n + 1\<rparr>"
  let ?ms' = "ms(?b \<mapsto> ?m')"
  have m': "count ?m' = ?n + 1" "matrix ?m' = (matrix m)(?n := Some (x, y, z))"
    using m by (simp_all add: setMatrixAt_fields)
  have old: "cellAt ?c' x' y' z' = cellAt c x' y' z'" if "(x', y', z') \<in> set pre" for x' y' z'
  proof -
    have "(x', y', z') \<noteq> (x, y, z)"
      using that q(2) by auto
    then show ?thesis
      by (rule cellAt_putCell_other [OF s q(1) pre [OF that]])
  qed
  have new: "cellAt ?c' x y z = (cellAt c x y z)\<lparr>instanceId := Some ?n\<rparr>"
    by (rule cellAt_putCell_same [OF s q(1)])
  have "\<exists>k. ?ms' (id_block (cellAt ?c' x' y' z')) = Some k \<and> 0 \<le> i \<and> i < count k \<and>
             matrix k i = Some (x', y', z')"
    if p: "(x', y', z') \<in> set (pre @ [(x, y, z)])" and i: "instanceId (cellAt ?c' x' y' z') = Some i"
    for x' y' z' i
  proof (cases "(x', y', z') = (x, y, z)")
    case True
    then have e: "x' = x" "y' = y" "z' = z" by simp_all
    have "i = ?n"
      using i new e by simp
    moreover have "?ms' (id_block (cellAt ?c' x y z)) = Some ?m'"
      using new by simp
    ultimately show ?thesis
      using e m' m(3) by simp
  next
    case False
    then have pp: "(x', y', z') \<in> set pre"
      using p by auto
    note o = old [OF pp]
    have "instanceId (cellAt c x' y' z') = Some i"
      using i o by simp
    from linkPart_slot [OF l pp this]
    obtain k where k: "ms (id_block (cellAt c x' y' z')) = Some k" "0 \<le> i" "i < count k"
      "matrix k i = Some (x', y', z')"
      by blast
    show ?thesis
    proof (cases "id_block (cellAt c x' y' z') = ?b")
      case same: True
      then have km: "k = m" using k(1) m(1) by simp
      have "?ms' (id_block (cellAt ?c' x' y' z')) = Some ?m'"
        using same o by simp
      moreover have "i < count ?m'" "matrix ?m' i = Some (x', y', z')"
        using k(3,4) km m' by simp_all
      ultimately show ?thesis
        using k(2) by blast
    next
      case other: False
      then have "?ms' (id_block (cellAt ?c' x' y' z')) = Some k"
        using o k(1) by simp
      then show ?thesis
        using k(2,3,4) by blast
    qed
  qed
  then show ?thesis
    unfolding linkPart_def by blast
qed

lemma gridPart_place:
  assumes g: "gridPart env c0 pre c"
    and q: "inBounds c0 x y z" "(x, y, z) \<notin> set pre"
    and v: "id_block (cellAt c0 x y z) \<noteq> empty_id env" "\<not> allNeighboursNonEmpty env c0 x y z"
    and pre: "\<And>x y z. (x, y, z) \<in> set pre \<Longrightarrow> inBounds c0 x y z"
  shows "gridPart env c0 (pre @ [(x, y, z)])
           (putCell c x y z ((cellAt c x y z)\<lparr>instanceId := Some n\<rparr>))"
proof -
  let ?c' = "putCell c x y z ((cellAt c x y z)\<lparr>instanceId := Some n\<rparr>)"
  note s = gridPart_shaped [OF g]
  have ib: "inBounds c x y z = inBounds c0 x y z" for x y z
    using gridPart_inBounds [OF g] .
  have qc: "inBounds c x y z"
    using q(1) ib by simp
  have at: "cellAt ?c' x' y' z' =
      (if x' = x \<and> y' = y \<and> z' = z then (cellAt c x y z)\<lparr>instanceId := Some n\<rparr> else cellAt c x' y' z')"
    if "inBounds c0 x' y' z'" for x' y' z'
    using cellAt_putCell [OF s qc, of x' y' z'] that ib by simp
  have 1: "shaped ?c'"
    by (rule shaped_putCell [OF s])
  have 2: "\<exists>d. ?c' = c0\<lparr>data := d\<rparr>"
    using gridPart_frame [OF g] by (auto simp: putCell_def)
  have 3: "id_block (cellAt ?c' x' y' z') = id_block (cellAt c0 x' y' z')"
    if "inBounds c0 x' y' z'" for x' y' z'
    using at [OF that] gridPart_id [OF g that] gridPart_id [OF g q(1)] by auto
  have 4: "instanceId (cellAt ?c' x' y' z') = None"
    if "inBounds c0 x' y' z'" "(x', y', z') \<notin> set (pre @ [(x, y, z)])" for x' y' z'
  proof -
    have "\<not> (x' = x \<and> y' = y \<and> z' = z)" "(x', y', z') \<notin> set pre"
      using that(2) by auto
    then show ?thesis
      using at [OF that(1)] gridPart_fresh [OF g that(1)] by simp
  qed
  have 5: "instanceId (cellAt ?c' x' y' z') = None \<longleftrightarrow>
      id_block (cellAt c0 x' y' z') = empty_id env \<or> allNeighboursNonEmpty env c0 x' y' z'"
    if "(x', y', z') \<in> set (pre @ [(x, y, z)])" for x' y' z'
  proof (cases "x' = x \<and> y' = y \<and> z' = z")
    case True
    then show ?thesis
      using at [OF q(1)] v by simp
  next
    case False
    then have p: "(x', y', z') \<in> set pre"
      using that by auto
    then have "cellAt ?c' x' y' z' = cellAt c x' y' z'"
      using at [OF pre [OF p]] False by simp
    then show ?thesis
      using gridPart_done [OF g p] by simp
  qed
  show ?thesis
    unfolding gridPart_def
  proof (intro conjI allI impI)
    show "shaped ?c'" by (rule 1)
    show "\<exists>d. ?c' = c0\<lparr>data := d\<rparr>" by (rule 2)
  next
    fix x' y' z'
    assume "inBounds c0 x' y' z'"
    then show "id_block (cellAt ?c' x' y' z') = id_block (cellAt c0 x' y' z')" by (rule 3)
  next
    fix x' y' z'
    assume "inBounds c0 x' y' z'" "(x', y', z') \<notin> set (pre @ [(x, y, z)])"
    then show "instanceId (cellAt ?c' x' y' z') = None" by (rule 4)
  next
    fix x' y' z'
    assume "(x', y', z') \<in> set (pre @ [(x, y, z)])"
    then show "(instanceId (cellAt ?c' x' y' z') = None) =
      (id_block (cellAt c0 x' y' z') = empty_id env \<or> allNeighboursNonEmpty env c0 x' y' z')"
      by (rule 5)
  qed
qed

lemma meshStep_shaped:
  assumes "shaped c" "inBounds c x y z"
  shows "meshStep env x y z (c, ms) =
     (if id_block (cellAt c x y z) = empty_id env then Inr (c, ms)
      else
        (case ms (id_block (cellAt c x y z)) of
           None \<Rightarrow> Inl TypeError
         | Some m \<Rightarrow>
             if allNeighboursNonEmpty env c x y z then Inr (c, ms)
             else Inr (putCell c x y z ((cellAt c x y z)\<lparr>instanceId := Some (count m)\<rparr>),
                       ms(id_block (cellAt c x y z) \<mapsto>
                            (setMatrixAt m (count m) (Some (x, y, z)))\<lparr>count := count m + 1\<rparr>))))"
  using assms
  by (simp add: meshStep_def getBlock_in isBlockObscured_shaped setBlockInstanceId_in
      split: option.splits)

lemma coords_split:
  assumes "coords c = pre @ (x, y, z) # post"
  shows "inBounds c x y z" "(x, y, z) \<notin> set pre"
    "\<And>x' y' z'. (x', y', z') \<in> set pre \<Longrightarrow> inBounds c x' y' z'"
    "int (length pre) < width (size_chunk c) * height (size_chunk c) * width (size_chunk c)"
proof -
  have m: "(x, y, z) \<in> set (coords c)"
    using assms by simp
  then show ib: "inBounds c x y z"
    by (simp add: set_coords)
  show "(x, y, z) \<notin> set pre"
    using distinct_coords [of c] assms by simp
  show "inBounds c x' y' z'" if "(x', y', z') \<in> set pre" for x' y' z'
  proof -
    have "(x', y', z') \<in> set (coords c)"
      using that assms by simp
    then show ?thesis by (simp add: set_coords)
  qed
  have pos: "0 < width (size_chunk c)" "0 < height (size_chunk c)"
    using ib by (auto simp: inBounds_iff)
  have "length pre < length (coords c)"
    using assms by simp
  then have "int (length pre) < int (nat (width (size_chunk c)) *
      (nat (height (size_chunk c)) * nat (width (size_chunk c))))"
    by (simp only: length_coords of_nat_less_iff)
  also have "\<dots> = width (size_chunk c) * height (size_chunk c) * width (size_chunk c)"
    using pos by (simp add: ac_simps)
  finally show "int (length pre) < width (size_chunk c) * height (size_chunk c) * width (size_chunk c)" .
qed

lemma meshStep_invariant:
  assumes inv: "meshInv env c0 cap pre s"
    and js: "coords c0 = pre @ (x, y, z) # post"
    and c0: "shaped c0" "cap = width (size_chunk c0) * height (size_chunk c0) * width (size_chunk c0)"
    and res: "meshStep env x y z s = Inr s'"
  shows "meshInv env c0 cap (pre @ [(x, y, z)]) s'"
proof -
  obtain c ms where s: "s = (c, ms)" by (cases s)
  have g: "gridPart env c0 pre c" and t: "tablePart env cap pre c ms" and l: "linkPart pre c ms"
    using inv s by (simp_all add: meshInv_def)
  note q = coords_split [OF js]
  note sc = gridPart_shaped [OF g]
  note ib = gridPart_inBounds [OF g]
  have qc: "inBounds c x y z" using q(1) ib by simp
  have prec: "inBounds c x' y' z'" if "(x', y', z') \<in> set pre" for x' y' z'
    using q(3) [OF that] ib by simp
  have size: "size_chunk c = size_chunk c0"
    using gridPart_frame [OF g] by auto
  have idq: "id_block (cellAt c x y z) = id_block (cellAt c0 x y z)"
    by (rule gridPart_id [OF g q(1)])
  have obs: "allNeighboursNonEmpty env c x' y' z' = allNeighboursNonEmpty env c0 x' y' z'" for x' y' z'
    by (rule allNeighboursNonEmpty_cong [OF c0(1) sc size]) (rule gridPart_id [OF g])
  note step = meshStep_shaped [OF sc qc, of env ms]
  show ?thesis
  proof (cases "id_block (cellAt c x y z) = empty_id env")
    case True
    then have "s' = (c, ms)"
      using res s step by simp
    moreover have "gridPart env c0 (pre @ [(x, y, z)]) c"
      using gridPart_skip [OF g q(1)] True idq by simp
    moreover have "instanceId (cellAt c x y z) = None"
      by (rule gridPart_fresh [OF g q(1,2)])
    ultimately show ?thesis
      using tablePart_skip [OF t] linkPart_skip [OF l] by (simp add: meshInv_def)
  next
    case False
    with res s step obtain m where m: "ms (id_block (cellAt c x y z)) = Some m"
      by (auto split: option.splits)
    show ?thesis
    proof (cases "allNeighboursNonEmpty env c x y z")
      case True
      then have "s' = (c, ms)"
        using res s step False m by simp
      moreover have "gridPart env c0 (pre @ [(x, y, z)]) c"
        using gridPart_skip [OF g q(1)] True obs by simp
      moreover have "instanceId (cellAt c x y z) = None"
        by (rule gridPart_fresh [OF g q(1,2)])
      ultimately show ?thesis
        using tablePart_skip [OF t] linkPart_skip [OF l] by (simp add: meshInv_def)
    next
      case vis: False
      note tm = tablePart_mesh [OF t m]
      have cnt: "count m < cap"
        using tm(3) q(4) c0(2) by simp
      have s': "s' = (putCell c x y z ((cellAt c x y z)\<lparr>instanceId := Some (count m)\<rparr>),
                       ms(id_block (cellAt c x y z) \<mapsto>
                            (setMatrixAt m (count m) (Some (x, y, z)))\<lparr>count := count m + 1\<rparr>))"
        using res s step False m vis by simp
      have 1: "gridPart env c0 (pre @ [(x, y, z)])
           (putCell c x y z ((cellAt c x y z)\<lparr>instanceId := Some (count m)\<rparr>))"
      proof (rule gridPart_place [OF g q(1,2)])
        show "id_block (cellAt c0 x y z) \<noteq> empty_id env"
          using False idq by simp
        show "\<not> allNeighboursNonEmpty env c0 x y z"
          using vis obs by simp
      qed (rule q(3))
      have 2: "tablePart env cap (pre @ [(x, y, z)])
           (putCell c x y z ((cellAt c x y z)\<lparr>instanceId := Some (count m)\<rparr>))
           (ms(id_block (cellAt c x y z) \<mapsto>
              (setMatrixAt m (count m) (Some (x, y, z)))\<lparr>count := count m + 1\<rparr>))"
        by (rule tablePart_place [OF t sc qc q(2) m cnt prec])
      have 3: "linkPart (pre @ [(x, y, z)])
           (putCell c x y z ((cellAt c x y z)\<lparr>instanceId := Some (count m)\<rparr>))
           (ms(id_block (cellAt c x y z) \<mapsto>
              (setMatrixAt m (count m) (Some (x, y, z)))\<lparr>count := count m + 1\<rparr>))"
      proof (rule linkPart_place [OF l sc qc q(2) m])
        show "count m < maxCount m" using cnt tm(1) by simp
        show "0 \<le> count m" by (rule tm(2))
      qed (rule prec)
      show ?thesis
        using s' 1 2 3 by (simp add: meshInv_def)
    qed
  qed
qed

lemma meshStep_total:
  assumes inv: "meshInv env c0 cap pre s"
    and js: "coords c0 = pre @ (x, y, z) # post"
    and reg: "id_block (cellAt c0 x y z) = empty_id env \<or> id_block (cellAt c0 x y z) \<in> set (block_ids env)"
  shows "\<exists>s'. meshStep env x y z s = Inr s'"
proof -
  obtain c ms where s: "s = (c, ms)" by (cases s)
  have g: "gridPart env c0 pre c" and t: "tablePart env cap pre c ms"
    using inv s by (simp_all add: meshInv_def)
  note q = coords_split [OF js]
  note sc = gridPart_shaped [OF g]
  have qc: "inBounds c x y z" using q(1) gridPart_inBounds [OF g] by simp
  have idq: "id_block (cellAt c x y z) = id_block (cellAt c0 x y z)"
    by (rule gridPart_id [OF g q(1)])
  note step = meshStep_shaped [OF sc qc, of env ms]
  show ?thesis
  proof (cases "id_block (cellAt c x y z) = empty_id env")
    case True
    then show ?thesis using s step by simp
  next
    case False
    then have "ms (id_block (cellAt c x y z)) \<noteq> None"
      using reg idq tablePart_dom [OF t, of "id_block (cellAt c x y z)"] by simp
    then obtain m where "ms (id_block (cellAt c x y z)) = Some m"
      by auto
    then show ?thesis
      using s step False by simp
  qed
qed

lemma children_update_simps [simp]:
  "shaped (c\<lparr>children := k\<rparr>) = shaped c"
  "cellAt (c\<lparr>children := k\<rparr>) = cellAt c"
  "inBounds (c\<lparr>children := k\<rparr>) = inBounds c"
  "coords (c\<lparr>children := k\<rparr>) = coords c"
  by (simp_all add: shaped_def cellAt_def inBounds_def coords_def fun_eq_iff)

lemma meshInv_initial:
  assumes "shaped c" "noInstances c"
  shows "meshInv env (c\<lparr>children := Map.empty\<rparr>) cap []
           (c\<lparr>children := Map.empty\<rparr>, newMeshes env cap)"
proof -
  let ?c0 = "c\<lparr>children := Map.empty\<rparr>"
  have "?c0 = ?c0\<lparr>data := data c\<rparr>" by simp
  then have f: "\<exists>d. ?c0 = ?c0\<lparr>data := d\<rparr>" by blast
  have g: "gridPart env ?c0 [] ?c0"
    unfolding gridPart_def using assms f by (simp add: noInstances_def)
  have t: "tablePart env cap [] ?c0 (newMeshes env cap)"
    unfolding tablePart_def by (auto simp: newMeshes_apply newMesh_def split: if_splits)
  have l: "linkPart [] ?c0 (newMeshes env cap)"
    by (simp add: linkPart_def)
  show ?thesis
    using g t l by (simp add: meshInv_def)
qed

lemma generateMeshes_loop:
  "generateMeshes env c =
     andThen (forEach (coords c) (\<lambda>(x, y, z). meshStep env x y z)
                (c\<lparr>children := Map.empty\<rparr>,
                 newMeshes env (width (size_chunk c) * height (size_chunk c) * width (size_chunk c))))
       (\<lambda>(c', meshes). Inr (c'\<lparr>children := meshes\<rparr>))"
  by (simp add: generateMeshes_def Let_def forEach_grid_flat coords_def)

lemma meshInv_final:
  assumes inv: "meshInv env c0 cap (coords c0) (c', ms)"
    and cap: "cap = width (size_chunk c0) * height (size_chunk c0) * width (size_chunk c0)"
    and c0: "shaped c0"
  shows "consistent env (c'\<lparr>children := ms\<rparr>)"
    and "culled env (c'\<lparr>children := ms\<rparr>)"
    and "\<exists>d. c' = c0\<lparr>data := d\<rparr>"
    and "\<And>x y z. inBounds c0 x y z \<Longrightarrow> id_block (cellAt c' x y z) = id_block (cellAt c0 x y z)"
proof -
  have g: "gridPart env c0 (coords c0) c'" and t: "tablePart env cap (coords c0) c' ms"
    and l: "linkPart (coords c0) c' ms"
    using inv by (simp_all add: meshInv_def)
  note sc = gridPart_shaped [OF g]
  note ib = gridPart_inBounds [OF g]
  show fr: "\<exists>d. c' = c0\<lparr>data := d\<rparr>"
    by (rule gridPart_frame [OF g])
  then have size: "size_chunk c' = size_chunk c0"
    by auto
  show ids: "id_block (cellAt c' x y z) = id_block (cellAt c0 x y z)" if "inBounds c0 x y z" for x y z
    by (rule gridPart_id [OF g that])
  have obs: "allNeighboursNonEmpty env c' x y z = allNeighboursNonEmpty env c0 x y z" for x y z
    by (rule allNeighboursNonEmpty_cong [OF c0 sc size]) (rule gridPart_id [OF g])
  have obs': "allNeighboursNonEmpty env (c'\<lparr>children := ms\<rparr>) x y z = allNeighboursNonEmpty env c' x y z"
    for x y z
    by (rule allNeighboursNonEmpty_cong) (simp_all add: sc)
  show "culled env (c'\<lparr>children := ms\<rparr>)"
    unfolding culled_def
  proof (intro allI impI)
    fix x y z
    assume "inBounds (c'\<lparr>children := ms\<rparr>) x y z"
    then have i0: "inBounds c0 x y z" using ib by simp
    then have "(x, y, z) \<in> set (coords c0)" by (simp add: set_coords)
    from gridPart_done [OF g this] ids [OF i0] obs obs'
    show "(instanceId (cellAt (c'\<lparr>children := ms\<rparr>) x y z) = None) =
      (id_block (cellAt (c'\<lparr>children := ms\<rparr>) x y z) = empty_id env \<or>
       allNeighboursNonEmpty env (c'\<lparr>children := ms\<rparr>) x y z)"
      by simp
  qed
  show "consistent env (c'\<lparr>children := ms\<rparr>)"
    unfolding consistent_def
  proof (intro conjI ballI allI impI)
    show "shaped (c'\<lparr>children := ms\<rparr>)" using sc by simp
  next
    fix b
    assume "b \<in> set (block_ids env)" "b \<noteq> empty_id env"
    then show "children (c'\<lparr>children := ms\<rparr>) b \<noteq> None"
      using tablePart_dom [OF t, of b] by simp
  next
    fix x y z i
    assume "inBounds (c'\<lparr>children := ms\<rparr>) x y z"
      and i: "instanceId (cellAt (c'\<lparr>children := ms\<rparr>) x y z) = Some i"
    then have "(x, y, z) \<in> set (coords c0)" using ib by (simp add: set_coords)
    from linkPart_slot [OF l this] i
    show "\<exists>m. children (c'\<lparr>children := ms\<rparr>) (id_block (cellAt (c'\<lparr>children := ms\<rparr>) x y z)) = Some m \<and>
        0 \<le> i \<and> i < count m \<and> matrix m i = Some (x, y, z)"
      by simp
  next
    fix b m
    assume m: "children (c'\<lparr>children := ms\<rparr>) b = Some m"
    then have mb: "ms b = Some m" by simp
    then show "b \<noteq> empty_id env"
      using tablePart_dom [OF t, of b] by simp
    show "0 \<le> count m"
      by (rule tablePart_mesh(2) [OF t mb])
    show "maxCount m = width (size_chunk (c'\<lparr>children := ms\<rparr>)) *
        height (size_chunk (c'\<lparr>children := ms\<rparr>)) * width (size_chunk (c'\<lparr>children := ms\<rparr>))"
      using tablePart_mesh(1) [OF t mb] cap size by simp
  next
    fix b m i
    assume m: "children (c'\<lparr>children := ms\<rparr>) b = Some m" and i: "0 \<le> i \<and> i < count m"
    then have mb: "ms b = Some m" by simp
    from tablePart_slot [OF t mb] i obtain x y z where w: "(x, y, z) \<in> set (coords c0)"
      "matrix m i = Some (x, y, z)" "id_block (cellAt c' x y z) = b"
      "instanceId (cellAt c' x y z) = Some i"
      by blast
    have "inBounds c' x y z"
      using w(1) ib by (simp add: set_coords)
    then show "\<exists>x y z. matrix m i = Some (x, y, z) \<and> inBounds (c'\<lparr>children := ms\<rparr>) x y z \<and>
        id_block (cellAt (c'\<lparr>children := ms\<rparr>) x y z) = b \<and>
        instanceId (cellAt (c'\<lparr>children := ms\<rparr>) x y z) = Some i"
      using w(2,3,4) by auto
  qed
qed

lemma generateMeshes_result:
  assumes "shaped c" "noInstances c" "generateMeshes env c = Inr c'"
  shows "consistent env c'" and "culled env c'"
    and "\<exists>d k. c' = c\<lparr>data := d, children := k\<rparr>"
    and "\<And>x y z. inBounds c x y z \<Longrightarrow> id_block (cellAt c' x y z) = id_block (cellAt c x y z)"
proof -
  let ?c0 = "c\<lparr>children := Map.empty\<rparr>"
  let ?cap = "width (size_chunk c) * height (size_chunk c) * width (size_chunk c)"
  from assms(3) obtain c1 ms where
    loop: "forEach (coords c) (\<lambda>(x, y, z). meshStep env x y z) (?c0, newMeshes env ?cap) = Inr (c1, ms)"
    and c': "c' = c1\<lparr>children := ms\<rparr>"
    by (auto simp: generateMeshes_loop andThen_eq_Inr)
  have s0: "shaped ?c0" using assms(1) by simp
  have cap: "?cap = width (size_chunk ?c0) * height (size_chunk ?c0) * width (size_chunk ?c0)"
    by simp
  have "meshInv env ?c0 ?cap (coords c) (c1, ms)"
  proof (rule forEach_partial [where I = "meshInv env ?c0 ?cap" and f = "\<lambda>(x, y, z). meshStep env x y z"])
    show "meshInv env ?c0 ?cap [] (?c0, newMeshes env ?cap)"
      by (rule meshInv_initial [OF assms(1,2)])
    show "forEach (coords c) (\<lambda>(x, y, z). meshStep env x y z) (?c0, newMeshes env ?cap) = Inr (c1, ms)"
      by (rule loop)
  next
    fix pre i post s s'
    assume js: "coords c = pre @ i # post" and inv: "meshInv env ?c0 ?cap pre s"
      and st: "(case i of (x, y, z) \<Rightarrow> meshStep env x y z) s = Inr s'"
    obtain x y z where i: "i = (x, y, z)" by (cases i)
    have "coords ?c0 = pre @ (x, y, z) # post" using js i by simp
    from meshStep_invariant [OF inv this s0 cap] st i
    show "meshInv env ?c0 ?cap (pre @ [i]) s'" by simp
  qed
  then have inv: "meshInv env ?c0 ?cap (coords ?c0) (c1, ms)" by simp
  note fin = meshInv_final [OF inv cap s0]
  show "consistent env c'" using fin(1) c' by simp
  show "culled env c'" using fin(2) c' by simp
  show "\<exists>d k. c' = c\<lparr>data := d, children := k\<rparr>"
  proof -
    from fin(3) obtain d where "c1 = ?c0\<lparr>data := d\<rparr>" by blast
    then have "c' = c\<lparr>data := d, children := ms\<rparr>"
      using c' by simp
    then show ?thesis by blast
  qed
  show "id_block (cellAt c' x y z) = id_block (cellAt c x y z)" if "inBounds c x y z" for x y z
    using fin(4) [of x y z] that c' by simp
qed

lemma generateMeshes_total:
  assumes "shaped c" "noInstances c"
    and reg: "\<And>x y z. inBounds c x y z \<Longrightarrow>
       id_block (cellAt c x y z) = empty_id env \<or> id_block (cellAt c x y z) \<in> set (block_ids env)"
  shows "\<exists>c'. generateMeshes env c = Inr c'"
proof -
  let ?c0 = "c\<lparr>children := Map.empty\<rparr>"
  let ?cap = "width (size_chunk c) * height (size_chunk c) * width (size_chunk c)"
  have s0: "shaped ?c0" using assms(1) by simp
  have cap: "?cap = width (size_chunk ?c0) * height (size_chunk ?c0) * width (size_chunk ?c0)"
    by simp
  have "\<exists>s'. forEach (coords c) (\<lambda>(x, y, z). meshStep env x y z) (?c0, newMeshes env ?cap) = Inr s' \<and>
      meshInv env ?c0 ?cap (coords c) s'"
  proof (rule forEach_invariant [where I = "meshInv env ?c0 ?cap"])
    show "meshInv env ?c0 ?cap [] (?c0, newMeshes env ?cap)"
      by (rule meshInv_initial [OF assms(1,2)])
  next
    fix pre i post s
    assume js: "coords c = pre @ i # post" and inv: "meshInv env ?c0 ?cap pre s"
    obtain x y z where i: "i = (x, y, z)" by (cases i)
    have js0: "coords ?c0 = pre @ (x, y, z) # post" using js i by simp
    have "inBounds c x y z"
      using coords_split(1) [OF js0] by simp
    from reg [OF this]
    have "id_block (cellAt ?c0 x y z) = empty_id env \<or> id_block (cellAt ?c0 x y z) \<in> set (block_ids env)"
      by simp
    from meshStep_total [OF inv js0 this] obtain s' where s': "meshStep env x y z s = Inr s'"
      by blast
    from meshStep_invariant [OF inv js0 s0 cap s'] s' i
    show "\<exists>s'. (case i of (x, y, z) \<Rightarrow> meshStep env x y z) s = Inr s' \<and> meshInv env ?c0 ?cap (pre @ [i]) s'"
      by simp
  qed
  then obtain s' where "forEach (coords c) (\<lambda>(x, y, z). meshStep env x y z) (?c0, newMeshes env ?cap) = Inr s'"
    by blast
  then show ?thesis
    by (cases s') (simp add: generateMeshes_loop)
qed

section \<open>The generated grid\<close>

lemma fold_stampResource:
  "fold (\<lambda>r. stampResource env c r x y z) rs \<lparr>id_block = b, instanceId = i\<rparr> =
     \<lparr>id_block = fold (\<lambda>r b.
            if noise3d env (seed (params c))
                 (real_of_int (vx (position c) + x) / scale_x r)
                 (real_of_int (vy (position c) + y) / scale_y r)
                 (real_of_int (vz (position c) + z) / scale_z r) > scarcity r
            then res_id r else b) rs b, instanceId = i\<rparr>"
  by (induction rs arbitrary: b) (simp_all add: stampResource_def)

lemma instanceId_fillCell [simp]: "instanceId (fillCell env h y cl) = instanceId cl"
  by (simp add: fillCell_def)

lemma instanceId_overlayCell [simp]: "instanceId (overlayCell c x y z cl) = instanceId cl"
  by (simp add: overlayCell_def split: option.splits)

lemma cell_eqI: "id_block a = b \<Longrightarrow> instanceId a = i \<Longrightarrow> a = \<lparr>id_block = b, instanceId = i\<rparr>"
  by (cases a) simp

lemma generate_grid:
  "\<exists>c3. andThen (generateResources env (initializeTerrain env c)) (\<lambda>c1.
          andThen (generateTerrain env c1) loadPlayerChanges) = Inr c3 \<and>
        shaped c3 \<and> (\<exists>d. c3 = c\<lparr>data := d\<rparr>) \<and>
        (\<forall>x y z. inBounds c x y z \<longrightarrow>
           cellAt c3 x y z = \<lparr>id_block = generatedId env c x y z, instanceId = None\<rparr>)"
proof -
  let ?c0 = "initializeTerrain env c"
  have f0: "?c0 = c\<lparr>data := data ?c0\<rparr>"
    by (simp add: initializeTerrain_def)
  from generateResources_cellwise [OF initializeTerrain_shaped [of env c], of env]
  obtain c1 where c1: "generateResources env ?c0 = Inr c1"
    "cellwise ?c0 c1 (\<lambda>x y z. fold (\<lambda>r. stampResource env ?c0 r x y z) (resources env))"
    by blast
  from c1(2) obtain d1 where d1: "c1 = ?c0\<lparr>data := d1\<rparr>"
    by (auto simp: cellwise_def)
  then have f1: "c1 = c\<lparr>data := d1\<rparr>"
    using f0 by (simp add: initializeTerrain_def)
  from generateTerrain_cellwise [OF cellwise_fields(7) [OF c1(2)], of env]
  obtain c2 where c2: "generateTerrain env c1 = Inr c2"
    "cellwise c1 c2 (\<lambda>x y z. fillCell env (columnHeight env c1 x z) y)"
    by blast
  from c2(2) obtain d2 where d2: "c2 = c1\<lparr>data := d2\<rparr>"
    by (auto simp: cellwise_def)
  then have f2: "c2 = c\<lparr>data := d2\<rparr>"
    using f1 by simp
  from loadPlayerChanges_cellwise [OF cellwise_fields(7) [OF c2(2)]]
  obtain c3 where c3: "loadPlayerChanges c2 = Inr c3" "cellwise c2 c3 (overlayCell c2)"
    by blast
  from c3(2) obtain d3 where d3: "c3 = c2\<lparr>data := d3\<rparr>"
    by (auto simp: cellwise_def)
  then have f3: "c3 = c\<lparr>data := d3\<rparr>"
    using f2 by simp
  have run: "andThen (generateResources env ?c0) (\<lambda>c1.
          andThen (generateTerrain env c1) loadPlayerChanges) = Inr c3"
    using c1(1) c2(1) c3(1) by simp
  have st: "stampResource env ?c0 = stampResource env c"
    by (subst f0) (rule stampResource_data)
  have ch: "columnHeight env c1 = columnHeight env c"
    by (subst f1) (rule columnHeight_data)
  have ov: "overlayCell c2 = overlayCell c"
    by (subst f2) (rule overlayCell_data)
  have cells: "cellAt c3 x y z = \<lparr>id_block = generatedId env c x y z, instanceId = None\<rparr>"
    if ib: "inBounds c x y z" for x y z
  proof -
    have i0: "inBounds ?c0 x y z" using ib by simp
    have i1: "inBounds c1 x y z" using cellwise_inBounds [OF c1(2)] i0 by simp
    have i2: "inBounds c2 x y z" using cellwise_inBounds [OF c2(2)] i1 by simp
    have a1: "cellAt c1 x y z = \<lparr>id_block = resourceAt env c x y z, instanceId = None\<rparr>"
      using c1(2) i0 cellAt_initializeTerrain [OF ib, of env]
      by (simp add: cellwise_def st fold_stampResource resourceAt_def)
    have a2: "cellAt c2 x y z = fillCell env (columnHeight env c x z) y (cellAt c1 x y z)"
      using c2(2) i1 by (simp add: cellwise_def ch)
    have a3: "cellAt c3 x y z = overlayCell c x y z (cellAt c2 x y z)"
      using c3(2) i2 by (simp add: cellwise_def ov)
    show ?thesis
      by (rule cell_eqI) (simp_all add: a3 a2 a1 generatedId_def)
  qed
  show ?thesis
    using run cellwise_fields(7) [OF c3(2)] f3 cells by blast
qed

lemma loaded_update_simps [simp]:
  "shaped (c\<lparr>loaded := l\<rparr>) = shaped c"
  "cellAt (c\<lparr>loaded := l\<rparr>) = cellAt c"
  "inBounds (c\<lparr>loaded := l\<rparr>) = inBounds c"
  "getBlock (c\<lparr>loaded := l\<rparr>) = getBlock c"
  by (simp_all add: shaped_def cellAt_def inBounds_def getBlock_def fun_eq_iff)

lemma allNeighboursNonEmpty_loaded [simp]:
  "allNeighboursNonEmpty env (c\<lparr>loaded := l\<rparr>) = allNeighboursNonEmpty env c"
  by (simp add: allNeighboursNonEmpty_def nonEmptyAt_def fun_eq_iff)

lemma consistent_loaded [simp]: "consistent env (c\<lparr>loaded := l\<rparr>) = consistent env c"
  by (simp add: consistent_def)

lemma culled_loaded [simp]: "culled env (c\<lparr>loaded := l\<rparr>) = culled env c"
  by (simp add: culled_def)

lemma generate_result:
  assumes "generate env c = Inr c'"
  shows "consistent env c'" and "culled env c'"
    and "\<exists>d k. c' = c\<lparr>data := d, children := k, loaded := True\<rparr>"
    and "\<And>x y z. inBounds c x y z \<Longrightarrow> id_block (cellAt c' x y z) = generatedId env c x y z"
proof -
  from generate_grid [of env c] obtain c3 d3 where
    run: "andThen (generateResources env (initializeTerrain env c)) (\<lambda>c1.
          andThen (generateTerrain env c1) loadPlayerChanges) = Inr c3"
    and s3: "shaped c3" and f3: "c3 = c\<lparr>data := d3\<rparr>"
    and cells: "\<And>x y z. inBounds c x y z \<Longrightarrow>
           cellAt c3 x y z = \<lparr>id_block = generatedId env c x y z, instanceId = None\<rparr>"
    by blast
  have ib: "inBounds c3 = inBounds c"
    using f3 by (simp add: inBounds_def fun_eq_iff)
  have g: "generate env c = andThen (generateMeshes env c3) (\<lambda>c4. Inr (c4\<lparr>loaded := True\<rparr>))"
  proof -
    obtain c1 where c1: "generateResources env (initializeTerrain env c) = Inr c1"
      using run by (auto simp: andThen_eq_Inr)
    then obtain c2 where c2: "generateTerrain env c1 = Inr c2" "loadPlayerChanges c2 = Inr c3"
      using run by (auto simp: andThen_eq_Inr)
    show ?thesis
      by (simp add: generate_def c1 c2)
  qed
  with assms obtain c4 where c4: "generateMeshes env c3 = Inr c4" "c' = c4\<lparr>loaded := True\<rparr>"
    by (auto simp: andThen_eq_Inr)
  have n3: "noInstances c3"
    using cells ib by (simp add: noInstances_def)
  note r = generateMeshes_result [OF s3 n3 c4(1)]
  show "consistent env c'" using r(1) c4(2) by simp
  show "culled env c'" using r(2) c4(2) by simp
  show "\<exists>d k. c' = c\<lparr>data := d, children := k, loaded := True\<rparr>"
  proof -
    from r(3) obtain d k where "c4 = c3\<lparr>data := d, children := k\<rparr>" by blast
    then have "c' = c\<lparr>data := d, children := k, loaded := True\<rparr>"
      using c4(2) f3 by simp
    then show ?thesis by blast
  qed
  show "id_block (cellAt c' x y z) = generatedId env c x y z" if "inBounds c x y z" for x y z
  proof -
    have "inBounds c3 x y z" using that ib by simp
    from r(4) [OF this] cells [OF that] c4(2) show ?thesis by simp
  qed
qed

lemma generate_total:
  assumes "\<And>x y z. inBounds c x y z \<Longrightarrow>
     generatedId env c x y z = empty_id env \<or> generatedId env c x y z \<in> set (block_ids env)"
  shows "\<exists>c'. generate env c = Inr c'"
proof -
  from generate_grid [of env c] obtain c3 d3 where
    run: "andThen (generateResources env (initializeTerrain env c)) (\<lambda>c1.
          andThen (generateTerrain env c1) loadPlayerChanges) = Inr c3"
    and s3: "shaped c3" and f3: "c3 = c\<lparr>data := d3\<rparr>"
    and cells: "\<And>x y z. inBounds c x y z \<Longrightarrow>
           cellAt c3 x y z = \<lparr>id_block = generatedId env c x y z, instanceId = None\<rparr>"
    by blast
  have ib: "inBounds c3 = inBounds c"
    using f3 by (simp add: inBounds_def fun_eq_iff)
  have g: "generate env c = andThen (generateMeshes env c3) (\<lambda>c4. Inr (c4\<lparr>loaded := True\<rparr>))"
  proof -
    obtain c1 where c1: "generateResources env (initializeTerrain env c) = Inr c1"
      using run by (auto simp: andThen_eq_Inr)
    then obtain c2 where c2: "generateTerrain env c1 = Inr c2" "loadPlayerChanges c2 = Inr c3"
      using run by (auto simp: andThen_eq_Inr)
    show ?thesis
      by (simp add: generate_def c1 c2)
  qed
  have n3: "noInstances c3"
    using cells ib by (simp add: noInstances_def)
  have "\<exists>c4. generateMeshes env c3 = Inr c4"
  proof (rule generateMeshes_total [OF s3 n3])
    fix x y z
    assume "inBounds c3 x y z"
    then have i: "inBounds c x y z" using ib by simp
    show "id_block (cellAt c3 x y z) = empty_id env \<or> id_block (cellAt c3 x y z) \<in> set (block_ids env)"
      using assms [OF i] cells [OF i] by simp
  qed
  then show ?thesis
    using g by auto
qed

section \<open>Incremental updates on a consistent chunk\<close>

lemma setBlockId_shaped:
  assumes "shaped c" "setBlockId c x y z b = Inr c'"
  shows "shaped c'" "size_chunk c' = size_chunk c"
proof -
  have "c' = (if inBounds c x y z then putCell c x y z ((cellAt c x y z)\<lparr>id_block := b\<rparr>) else c)"
    using assms by (cases "inBounds c x y z") (simp_all add: setBlockId_in setBlockId_out)
  then show "shaped c'" "size_chunk c' = size_chunk c"
    using assms(1) shaped_putCell [OF assms(1)] by (simp_all split: if_splits)
qed

lemma setBlockInstanceId_shaped:
  assumes "shaped c" "setBlockInstanceId c x y z i = Inr c'"
  shows "shaped c'" "size_chunk c' = size_chunk c"
proof -
  have "c' = (if inBounds c x y z then putCell c x y z ((cellAt c x y z)\<lparr>instanceId := i\<rparr>) else c)"
    using assms by (cases "inBounds c x y z") (simp_all add: setBlockInstanceId_in setBlockInstanceId_out)
  then show "shaped c'" "size_chunk c' = size_chunk c"
    using assms(1) shaped_putCell [OF assms(1)] by (simp_all split: if_splits)
qed

lemma consistent_shaped: "consistent env c \<Longrightarrow> shaped c"
  by (simp add: consistent_def)

lemma consistent_dom:
  "consistent env c \<Longrightarrow> b \<in> set (block_ids env) \<Longrightarrow> b \<noteq> empty_id env \<Longrightarrow> \<exists>m. children c b = Some m"
  unfolding consistent_def by blast

lemma consistent_cell:
  assumes "consistent env c" "inBounds c x y z" "instanceId (cellAt c x y z) = Some i"
  shows "\<exists>m. children c (id_block (cellAt c x y z)) = Some m \<and> 0 \<le> i \<and> i < count m \<and>
           matrix m i = Some (x, y, z)"
  using assms unfolding consistent_def by blast

lemma consistent_mesh:
  assumes "consistent env c" "children c b = Some m"
  shows "b \<noteq> empty_id env" "0 \<le> count m"
    "maxCount m = width (size_chunk c) * height (size_chunk c) * width (size_chunk c)"
  using assms unfolding consistent_def by blast+

lemma consistent_slot:
  assumes "consistent env c" "children c b = Some m" "0 \<le> i" "i < count m"
  shows "\<exists>x y z. matrix m i = Some (x, y, z) \<and> inBounds c x y z \<and>
           id_block (cellAt c x y z) = b \<and> instanceId (cellAt c x y z) = Some i"
  using assms unfolding consistent_def by blast

lemma consistent_empty:
  assumes "consistent env c" "inBounds c x y z" "id_block (cellAt c x y z) = empty_id env"
  shows "instanceId (cellAt c x y z) = None"
proof (cases "instanceId (cellAt c x y z)")
  case None
  then show ?thesis .
next
  case (Some i)
  from consistent_cell [OF assms(1,2) Some] obtain m where
    "children c (id_block (cellAt c x y z)) = Some m"
    by blast
  from consistent_mesh(1) [OF assms(1) this] assms(3) show ?thesis by simp
qed

text \<open>The positions stored in the active slots of a batch are pairwise different.\<close>

lemma consistent_slot_inj:
  assumes "consistent env c" "children c b = Some m"
    and "0 \<le> i" "i < count m" "0 \<le> j" "j < count m" "matrix m i = matrix m j"
  shows "i = j"
proof -
  from consistent_slot [OF assms(1,2,3,4)] obtain x y z where
    a: "matrix m i = Some (x, y, z)" "instanceId (cellAt c x y z) = Some i"
    by blast
  from consistent_slot [OF assms(1,2,5,6)] obtain x' y' z' where
    b: "matrix m j = Some (x', y', z')" "instanceId (cellAt c x' y' z') = Some j"
    by blast
  from a(1) b(1) assms(7) have "x' = x" "y' = y" "z' = z" by simp_all
  then show ?thesis using a(2) b(2) by simp
qed

section \<open>Counting instances\<close>

lemma concat_map_if: "concat (map (\<lambda>p. if P p then [f p] else []) xs) = map f (filter P xs)"
  by (induction xs) simp_all

lemma instancesOf_shaped:
  assumes "shaped c"
  shows "instancesOf c b = map (\<lambda>(x, y, z). the (instanceId (cellAt c x y z))) (instanced c b)"
proof -
  have "map (\<lambda>(x, y, z).
        case getBlock c x y z of
          Inr (Some cl) \<Rightarrow>
            (if id_block cl = b then (case instanceId cl of Some i \<Rightarrow> [i] | None \<Rightarrow> []) else [])
        | _ \<Rightarrow> []) (coords c) =
      map (\<lambda>p. if (case p of (x, y, z) \<Rightarrow> id_block (cellAt c x y z) = b \<and> instanceId (cellAt c x y z) \<noteq> None)
              then [case p of (x, y, z) \<Rightarrow> the (instanceId (cellAt c x y z))] else []) (coords c)"
  proof (rule map_cong [OF refl])
    fix p
    assume p: "p \<in> set (coords c)"
    obtain x y z where xyz: "p = (x, y, z)" by (cases p)
    then have "inBounds c x y z" using p by (simp add: set_coords)
    then show "(case p of (x, y, z) \<Rightarrow>
        case getBlock c x y z of
          Inr (Some cl) \<Rightarrow>
            (if id_block cl = b then (case instanceId cl of Some i \<Rightarrow> [i] | None \<Rightarrow> []) else [])
        | _ \<Rightarrow> []) =
      (if (case p of (x, y, z) \<Rightarrow> id_block (cellAt c x y z) = b \<and> instanceId (cellAt c x y z) \<noteq> None)
       then [case p of (x, y, z) \<Rightarrow> the (instanceId (cellAt c x y z))] else [])"
      using xyz by (auto simp: getBlock_in [OF assms] split: option.splits)
  qed
  then show ?thesis
    unfolding instancesOf_def instanced_def by (simp only: concat_map_if)
qed

lemma instanced_iff:
  "(x, y, z) \<in> set (instanced c b) \<longleftrightarrow>
     inBounds c x y z \<and> id_block (cellAt c x y z) = b \<and> instanceId (cellAt c x y z) \<noteq> None"
  by (auto simp: instanced_def set_coords)

lemma consistent_instances:
  assumes c: "consistent env c" and m: "children c b = Some m"
  shows "set (instancesOf c b) = {0 ..< count m}"
    and "distinct (instancesOf c b)"
    and "count m = int (length (instancesOf c b))"
    and "count m = int (length (instanced c b))"
proof -
  define f where "f = (\<lambda>p. case p of (x, y, z) \<Rightarrow> the (instanceId (cellAt c x y z)))"
  note s = consistent_shaped [OF c]
  have eq: "instancesOf c b = map f (instanced c b)"
    unfolding f_def by (rule instancesOf_shaped [OF s])
  have f: "f (x, y, z) = the (instanceId (cellAt c x y z))" for x y z
    by (simp add: f_def)
  have own: "0 \<le> i \<and> i < count m \<and> matrix m i = Some (x, y, z)"
    if "(x, y, z) \<in> set (instanced c b)" "instanceId (cellAt c x y z) = Some i" for x y z i
  proof -
    have ib: "inBounds c x y z" and idb: "id_block (cellAt c x y z) = b"
      using that(1) by (simp_all add: instanced_iff)
    from consistent_cell [OF c ib that(2)] idb m show ?thesis by simp
  qed
  have some: "instanceId (cellAt c x y z) = Some (f (x, y, z))"
    if "(x, y, z) \<in> set (instanced c b)" for x y z
  proof -
    have "instanceId (cellAt c x y z) \<noteq> None"
      using that by (simp add: instanced_iff)
    then show ?thesis by (simp add: f)
  qed
  have sub: "f p \<in> {0 ..< count m}" if "p \<in> set (instanced c b)" for p
  proof -
    obtain x y z where xyz: "p = (x, y, z)" by (cases p)
    from own [OF that [unfolded xyz] some [OF that [unfolded xyz]]]
    show ?thesis by (simp add: xyz)
  qed
  have sup: "i \<in> f ` set (instanced c b)" if "i \<in> {0 ..< count m}" for i
  proof -
    have "0 \<le> i" "i < count m" using that by simp_all
    from consistent_slot [OF c m this] obtain x y z where
      w: "inBounds c x y z" "id_block (cellAt c x y z) = b" "instanceId (cellAt c x y z) = Some i"
      by blast
    have "(x, y, z) \<in> set (instanced c b)"
      using w by (simp add: instanced_iff)
    moreover have "i = f (x, y, z)" using w(3) by (simp add: f)
    ultimately show ?thesis by (rule rev_image_eqI)
  qed
  have img: "f ` set (instanced c b) = {0 ..< count m}"
  proof (rule equalityI)
    show "f ` set (instanced c b) \<subseteq> {0 ..< count m}"
      using sub by (rule image_subsetI)
    show "{0 ..< count m} \<subseteq> f ` set (instanced c b)"
      using sup by (rule subsetI)
  qed
  show set: "set (instancesOf c b) = {0 ..< count m}"
    by (simp only: eq set_map img)
  have inj: "inj_on f (set (instanced c b))"
  proof (rule inj_onI)
    fix p p'
    assume p: "p \<in> set (instanced c b)" and p': "p' \<in> set (instanced c b)" and e: "f p = f p'"
    obtain x y z where xyz: "p = (x, y, z)" by (cases p)
    obtain x' y' z' where xyz': "p' = (x', y', z')" by (cases p')
    note a = own [OF p [unfolded xyz] some [OF p [unfolded xyz]]]
    note a' = own [OF p' [unfolded xyz'] some [OF p' [unfolded xyz']]]
    have "matrix m (f p) = Some (x, y, z)" using a xyz by simp
    moreover have "matrix m (f p) = Some (x', y', z')" using a' xyz' e by simp
    ultimately have "(x, y, z) = (x', y', z')" by simp
    then show "p = p'" using xyz xyz' by simp
  qed
  have dc: "distinct (instanced c b)"
    unfolding instanced_def by (rule distinct_filter [OF distinct_coords])
  show d: "distinct (instancesOf c b)"
    by (simp only: eq distinct_map dc inj simp_thms)
  have "length (instancesOf c b) = card (set (instancesOf c b))"
    using d by (rule distinct_card [symmetric])
  also have "\<dots> = card {0 ..< count m}"
    by (simp only: set)
  also have "\<dots> = nat (count m)"
    by simp
  finally have "length (instancesOf c b) = nat (count m)" .
  then show l: "count m = int (length (instancesOf c b))"
    using consistent_mesh(2) [OF c m] by simp
  then show "count m = int (length (instanced c b))"
    by (simp add: eq)
qed

lemma consistent_batchCountInvariant:
  assumes "consistent env c"
  shows "batchCountInvariant env c"
  unfolding batchCountInvariant_def
proof (intro ballI impI)
  fix b
  assume "b \<in> set (block_ids env)" "b \<noteq> empty_id env"
  from consistent_dom [OF assms this] obtain m where m: "children c b = Some m"
    by blast
  from consistent_instances [OF assms m] m
  show "case children c b of None \<Rightarrow> False
    | Some m \<Rightarrow> count m = int (length (instancesOf c b)) \<and> distinct (instancesOf c b) \<and>
        set (instancesOf c b) = {0 ..< count m}"
    by simp
qed

text \<open>A batch has a free slot while some cell is not one of its instances.\<close>

lemma consistent_capacity:
  assumes c: "consistent env c" and m: "children c b = Some m"
    and q: "inBounds c x y z" "id_block (cellAt c x y z) \<noteq> b \<or> instanceId (cellAt c x y z) = None"
  shows "count m < maxCount m"
proof -
  have pos: "0 < width (size_chunk c)" "0 < height (size_chunk c)"
    using q(1) by (auto simp: inBounds_iff)
  have "(x, y, z) \<in> set (coords c)"
    using q(1) by (simp add: set_coords)
  moreover have "\<not> (case (x, y, z) of (x, y, z) \<Rightarrow>
      id_block (cellAt c x y z) = b \<and> instanceId (cellAt c x y z) \<noteq> None)"
    using q(2) by auto
  ultimately have "length (instanced c b) < length (coords c)"
    unfolding instanced_def by (rule length_filter_less)
  then have "count m < int (length (coords c))"
    using consistent_instances(4) [OF c m] by simp
  also have "\<dots> = width (size_chunk c) * height (size_chunk c) * width (size_chunk c)"
    using pos by (simp add: length_coords ac_simps)
  finally show ?thesis
    using consistent_mesh(3) [OF c m] by simp
qed

lemma data_assign_twice:
  assumes "i < length d" "j < length (d ! i)"
  shows "(d[i := (d ! i)[j := (d ! i ! j)[k := a]]])
           [i := (d[i := (d ! i)[j := (d ! i ! j)[k := a]]] ! i)
              [j := (d[i := (d ! i)[j := (d ! i ! j)[k := a]]] ! i ! j)[k := b]]] =
         d[i := (d ! i)[j := (d ! i ! j)[k := b]]]"
  using assms by simp

lemma putCell_putCell:
  assumes "shaped c" "inBounds c x y z"
  shows "putCell (putCell c x y z a) x y z b = putCell c x y z b"
proof -
  from assms(2) have bd: "0 \<le> x" "x < width (size_chunk c)" "0 \<le> y" "y < height (size_chunk c)"
    by (simp_all add: inBounds_iff)
  have l1: "nat x < length (data c)"
    using assms(1) bd(1,2) by (simp add: shaped_def)
  have l2: "nat y < length (data c ! nat x)"
    using shaped_slice [OF assms(1) bd(1,2)] bd(3,4) by simp
  show ?thesis
    unfolding putCell_def data_assign_def
    using data_assign_twice [OF l1 l2, of "nat z" a b] by simp
qed

lemma putCell_children:
  "putCell (c\<lparr>children := k\<rparr>) x y z cl = (putCell c x y z cl)\<lparr>children := k\<rparr>"
  by (simp add: putCell_def)

lemma getBlock_children [simp]: "getBlock (c\<lparr>children := k\<rparr>) = getBlock c"
  by (simp add: getBlock_def fun_eq_iff)

lemma getBlock_dataStore [simp]: "getBlock (c\<lparr>dataStore := k\<rparr>) = getBlock c"
  by (simp add: getBlock_def inBounds_def fun_eq_iff)

lemma dataStore_update_simps [simp]:
  "shaped (c\<lparr>dataStore := k\<rparr>) = shaped c"
  "cellAt (c\<lparr>dataStore := k\<rparr>) = cellAt c"
  "inBounds (c\<lparr>dataStore := k\<rparr>) = inBounds c"
  by (simp_all add: shaped_def cellAt_def inBounds_def fun_eq_iff)

lemma consistent_dataStore [simp]: "consistent env (c\<lparr>dataStore := k\<rparr>) = consistent env c"
  by (simp add: consistent_def)

lemma setMatrixAt_in:
  "0 \<le> i \<Longrightarrow> i < maxCount m \<Longrightarrow> setMatrixAt m i p = m\<lparr>matrix := (matrix m)(i := p)\<rparr>"
  by (simp add: setMatrixAt_def)

lemma addBlock_consistent_empty_id:
  assumes c: "consistent env c" and q: "inBounds c x y z"
    and e: "id_block (cellAt c x y z) = empty_id env"
  shows "addBlock env c x y z (empty_id env) =
           Inr (c\<lparr>dataStore := (dataStore c)((vx (position c), vz (position c), x, y, z) \<mapsto> empty_id env)\<rparr>)"
proof -
  note s = consistent_shaped [OF c]
  have "getBlock c x y z = Inr (Some (cellAt c x y z))"
    by (rule getBlock_in [OF s q])
  from addBlock_with_empty_id [OF this e] show ?thesis .
qed

lemma addBlock_consistent:
  assumes c: "consistent env c" and q: "inBounds c x y z"
    and e: "id_block (cellAt c x y z) = empty_id env"
    and b: "b \<noteq> empty_id env" and m: "children c b = Some m"
  shows "addBlock env c x y z b =
           Inr ((placed c x y z b m)\<lparr>dataStore :=
                  (dataStore c)((vx (position c), vz (position c), x, y, z) \<mapsto> b)\<rparr>)"
proof -
  note s = consistent_shaped [OF c]
  let ?cl = "cellAt c x y z"
  have n: "instanceId ?cl = None"
    by (rule consistent_empty [OF c q e])
  have cl: "?cl\<lparr>id_block := b\<rparr> = \<lparr>id_block = b, instanceId = None\<rparr>"
    using n by (cases ?cl) simp
  let ?c1 = "putCell c x y z \<lparr>id_block = b, instanceId = None\<rparr>"
  have g: "getBlock c x y z = Inr (Some ?cl)"
    by (rule getBlock_in [OF s q])
  have s1: "setBlockId c x y z b = Inr ?c1"
    using setBlockId_in [OF s q, of b] cl by simp
  have sh1: "shaped ?c1" by (rule shaped_putCell [OF s])
  have q1: "inBounds ?c1 x y z" using q by simp
  have at1: "cellAt ?c1 x y z = \<lparr>id_block = b, instanceId = None\<rparr>"
    by (rule cellAt_putCell_same [OF s q])
  have g1: "getBlock ?c1 x y z = Inr (Some \<lparr>id_block = b, instanceId = None\<rparr>)"
    using getBlock_in [OF sh1 q1] at1 by simp
  have cap: "count m < maxCount m"
    by (rule consistent_capacity [OF c m q]) (simp add: n)
  have cnt: "0 \<le> count m"
    by (rule consistent_mesh(2) [OF c m])
  have s2: "setBlockInstanceId ?c1 x y z (Some (count m)) =
      Inr (putCell c x y z \<lparr>id_block = b, instanceId = Some (count m)\<rparr>)"
    using setBlockInstanceId_in [OF sh1 q1, of "Some (count m)"] at1
    by (simp add: putCell_putCell [OF s q])
  have sm: "setMatrixAt (m\<lparr>count := count m + 1\<rparr>) (count m) (Some (x, y, z)) =
      m\<lparr>count := count m + 1, matrix := (matrix m)(count m \<mapsto> (x, y, z))\<rparr>"
    using cap cnt by (simp add: setMatrixAt_def)
  have a: "addBlockInstance env ?c1 x y z = Inr (placed c x y z b m)"
    using g1 b m s2 sm by (simp add: addBlockInstance_def placed_def)
  show ?thesis
    using g e s1 a by (simp add: addBlock_def set_store_def placed_def)
qed

lemma placed_fields [simp]:
  "size_chunk (placed c x y z b m) = size_chunk c"
  "params (placed c x y z b m) = params c"
  "dataStore (placed c x y z b m) = dataStore c"
  "position (placed c x y z b m) = position c"
  "loaded (placed c x y z b m) = loaded c"
  "children (placed c x y z b m) =
     (children c)(b \<mapsto> m\<lparr>count := count m + 1, matrix := (matrix m)(count m \<mapsto> (x, y, z))\<rparr>)"
  "inBounds (placed c x y z b m) = inBounds c"
  by (simp_all add: placed_def inBounds_def fun_eq_iff)

lemma placed_cells:
  assumes "shaped c" "inBounds c x y z"
  shows "shaped (placed c x y z b m)"
    and "cellAt (placed c x y z b m) x y z = \<lparr>id_block = b, instanceId = Some (count m)\<rparr>"
    and "\<And>x' y' z'. inBounds c x' y' z' \<Longrightarrow> (x', y', z') \<noteq> (x, y, z) \<Longrightarrow>
           cellAt (placed c x y z b m) x' y' z' = cellAt c x' y' z'"
  using assms
  by (simp_all add: placed_def shaped_putCell cellAt_putCell_same cellAt_putCell_other)

lemma consistent_placed:
  assumes c: "consistent env c" and q: "inBounds c x y z"
    and n: "instanceId (cellAt c x y z) = None"
    and b: "b \<noteq> empty_id env" and m: "children c b = Some m"
  shows "consistent env (placed c x y z b m)"
proof -
  let ?c' = "placed c x y z b m"
  let ?n = "count m"
  let ?m' = "m\<lparr>count := ?n + 1, matrix := (matrix m)(?n \<mapsto> (x, y, z))\<rparr>"
  note s = consistent_shaped [OF c]
  note pc = placed_cells [OF s q, where b = b and m = m]
  note cm = consistent_mesh [OF c m]
  have ch: "children ?c' b' = (if b' = b then Some ?m' else children c b')" for b'
    by simp
  have m': "count ?m' = ?n + 1" "maxCount ?m' = maxCount m" "matrix ?m' ?n = Some (x, y, z)"
    "\<And>i. i \<noteq> ?n \<Longrightarrow> matrix ?m' i = matrix m i"
    by simp_all
  have notq: "(x', y', z') \<noteq> (x, y, z)" if "instanceId (cellAt c x' y' z') = Some i" for x' y' z' i
    using that n by auto
  show ?thesis
    unfolding consistent_def
  proof (intro conjI ballI allI impI)
    show "shaped ?c'" by (rule pc(1))
  next
    fix b'
    assume "b' \<in> set (block_ids env)" "b' \<noteq> empty_id env"
    from consistent_dom [OF c this] show "children ?c' b' \<noteq> None"
      by (auto simp: ch)
  next
    fix x' y' z' i
    assume ib: "inBounds ?c' x' y' z'" and i: "instanceId (cellAt ?c' x' y' z') = Some i"
    have ibc: "inBounds c x' y' z'" using ib by simp
    show "\<exists>k. children ?c' (id_block (cellAt ?c' x' y' z')) = Some k \<and> 0 \<le> i \<and> i < count k \<and>
        matrix k i = Some (x', y', z')"
    proof (cases "(x', y', z') = (x, y, z)")
      case True
      then have e: "x' = x" "y' = y" "z' = z" by simp_all
      have "i = ?n" using i pc(2) e by simp
      moreover have "children ?c' (id_block (cellAt ?c' x y z)) = Some ?m'"
        using pc(2) ch by simp
      ultimately show ?thesis
        using e cm(2) m'(1,3) by simp
    next
      case False
      note o = pc(3) [OF ibc False]
      have "instanceId (cellAt c x' y' z') = Some i" using i o by simp
      from consistent_cell [OF c ibc this] obtain k where
        k: "children c (id_block (cellAt c x' y' z')) = Some k" "0 \<le> i" "i < count k"
        "matrix k i = Some (x', y', z')"
        by blast
      show ?thesis
      proof (cases "id_block (cellAt c x' y' z') = b")
        case True
        then have km: "k = m" using k(1) m by simp
        have "children ?c' (id_block (cellAt ?c' x' y' z')) = Some ?m'"
          using True o ch by simp
        moreover have "i < count ?m'" using k(3) km by simp
        moreover have "matrix ?m' i = Some (x', y', z')"
          using m'(4) [of i] k(3,4) km by simp
        ultimately show ?thesis using k(2) by blast
      next
        case False
        then have "children ?c' (id_block (cellAt ?c' x' y' z')) = Some k"
          using o k(1) ch by simp
        then show ?thesis using k(2,3,4) by blast
      qed
    qed
  next
    fix b' k
    assume k: "children ?c' b' = Some k"
    show "b' \<noteq> empty_id env"
    proof (cases "b' = b")
      case True
      then show ?thesis using b by simp
    next
      case False
      then have "children c b' = Some k" using k by simp
      from consistent_mesh(1) [OF c this] show ?thesis .
    qed
    show "0 \<le> count k"
    proof (cases "b' = b")
      case True
      then have "k = ?m'" using k by simp
      then show ?thesis using cm(2) by simp
    next
      case False
      then have "children c b' = Some k" using k by simp
      from consistent_mesh(2) [OF c this] show ?thesis .
    qed
    show "maxCount k = width (size_chunk ?c') * height (size_chunk ?c') * width (size_chunk ?c')"
    proof (cases "b' = b")
      case True
      then have "k = ?m'" using k by simp
      then show ?thesis using cm(3) by simp
    next
      case False
      then have "children c b' = Some k" using k by simp
      from consistent_mesh(3) [OF c this] show ?thesis by simp
    qed
  next
    fix b' k i
    assume k: "children ?c' b' = Some k" and i: "0 \<le> i \<and> i < count k"
    have keep: "\<exists>x' y' z'. matrix mm i = Some (x', y', z') \<and> inBounds ?c' x' y' z' \<and>
        id_block (cellAt ?c' x' y' z') = bb \<and> instanceId (cellAt ?c' x' y' z') = Some i"
      if "children c bb = Some mm" "0 \<le> i" "i < count mm" for bb mm
    proof -
      from consistent_slot [OF c that] obtain x' y' z' where
        w: "matrix mm i = Some (x', y', z')" "inBounds c x' y' z'"
        "id_block (cellAt c x' y' z') = bb" "instanceId (cellAt c x' y' z') = Some i"
        by blast
      note o = pc(3) [OF w(2) notq [OF w(4)]]
      have "inBounds ?c' x' y' z'" using w(2) by simp
      then show ?thesis using w(1,3,4) o by metis
    qed
    show "\<exists>x' y' z'. matrix k i = Some (x', y', z') \<and> inBounds ?c' x' y' z' \<and>
        id_block (cellAt ?c' x' y' z') = b' \<and> instanceId (cellAt ?c' x' y' z') = Some i"
    proof (cases "b' = b")
      case False
      then have "children c b' = Some k" using k by simp
      from keep [OF this] i show ?thesis by blast
    next
      case True
      then have kk: "k = ?m'" using k by simp
      show ?thesis
      proof (cases "i = ?n")
        case eq: True
        have "matrix k i = Some (x, y, z)" using kk eq by simp
        moreover have "inBounds ?c' x y z" using q by simp
        moreover have "id_block (cellAt ?c' x y z) = b'" "instanceId (cellAt ?c' x y z) = Some i"
          using pc(2) True eq by simp_all
        ultimately show ?thesis by blast
      next
        case neq: False
        then have "i < ?n" using i kk by simp
        from keep [OF m _ this] i obtain x' y' z' where
          w: "matrix m i = Some (x', y', z')" "inBounds ?c' x' y' z'"
          "id_block (cellAt ?c' x' y' z') = b" "instanceId (cellAt ?c' x' y' z') = Some i"
          by blast
        have "matrix k i = Some (x', y', z')"
          using w(1) kk m'(4) [OF neq] by simp
        then show ?thesis using w(2,3,4) True by blast
      qed
    qed
  qed
qed

lemma consistent_cleared:
  assumes c: "consistent env c" and q: "inBounds c x y z"
    and n: "instanceId (cellAt c x y z) = None"
  shows "consistent env (putCell c x y z \<lparr>id_block = b, instanceId = None\<rparr>)"
proof -
  let ?c' = "putCell c x y z \<lparr>id_block = b, instanceId = None\<rparr>"
  note s = consistent_shaped [OF c]
  have same: "cellAt ?c' x y z = \<lparr>id_block = b, instanceId = None\<rparr>"
    by (rule cellAt_putCell_same [OF s q])
  have other: "cellAt ?c' x' y' z' = cellAt c x' y' z'"
    if "inBounds c x' y' z'" "(x', y', z') \<noteq> (x, y, z)" for x' y' z'
    by (rule cellAt_putCell_other [OF s q that])
  have notq: "(x', y', z') \<noteq> (x, y, z)" if "instanceId (cellAt c x' y' z') = Some i" for x' y' z' i
    using that n by auto
  show ?thesis
    unfolding consistent_def
  proof (intro conjI ballI allI impI)
    show "shaped ?c'" by (rule shaped_putCell [OF s])
  next
    fix b'
    assume "b' \<in> set (block_ids env)" "b' \<noteq> empty_id env"
    from consistent_dom [OF c this] show "children ?c' b' \<noteq> None" by auto
  next
    fix x' y' z' i
    assume ib: "inBounds ?c' x' y' z'" and i: "instanceId (cellAt ?c' x' y' z') = Some i"
    have ibc: "inBounds c x' y' z'" using ib by simp
    have ne: "(x', y', z') \<noteq> (x, y, z)"
    proof
      assume "(x', y', z') = (x, y, z)"
      then have "cellAt ?c' x' y' z' = \<lparr>id_block = b, instanceId = None\<rparr>"
        using same by simp
      then show False using i by simp
    qed
    note o = other [OF ibc ne]
    have "instanceId (cellAt c x' y' z') = Some i" using i o by simp
    from consistent_cell [OF c ibc this] o
    show "\<exists>k. children ?c' (id_block (cellAt ?c' x' y' z')) = Some k \<and> 0 \<le> i \<and> i < count k \<and>
        matrix k i = Some (x', y', z')"
      by simp
  next
    fix b' k
    assume k: "children ?c' b' = Some k"
    then have kc: "children c b' = Some k" by simp
    from consistent_mesh [OF c kc]
    show "b' \<noteq> empty_id env" "0 \<le> count k"
      "maxCount k = width (size_chunk ?c') * height (size_chunk ?c') * width (size_chunk ?c')"
      by simp_all
  next
    fix b' k i
    assume k: "children ?c' b' = Some k" and i: "0 \<le> i \<and> i < count k"
    then have kc: "children c b' = Some k" by simp
    from consistent_slot [OF c kc] i obtain x' y' z' where
      w: "matrix k i = Some (x', y', z')" "inBounds c x' y' z'"
      "id_block (cellAt c x' y' z') = b'" "instanceId (cellAt c x' y' z') = Some i"
      by blast
    note o = other [OF w(2) notq [OF w(4)]]
    have "inBounds ?c' x' y' z'" using w(2) by simp
    then show "\<exists>x' y' z'. matrix k i = Some (x', y', z') \<and> inBounds ?c' x' y' z' \<and>
        id_block (cellAt ?c' x' y' z') = b' \<and> instanceId (cellAt ?c' x' y' z') = Some i"
      using w(1,3,4) o by metis
  qed
qed

lemma consistent_count_le:
  assumes c: "consistent env c" and m: "children c b = Some m" and q: "inBounds c x y z"
  shows "count m \<le> maxCount m"
proof -
  have pos: "0 < width (size_chunk c)" "0 < height (size_chunk c)"
    using q by (auto simp: inBounds_iff)
  have "length (instanced c b) \<le> length (coords c)"
    unfolding instanced_def by (rule length_filter_le)
  then have "count m \<le> int (length (coords c))"
    using consistent_instances(4) [OF c m] by simp
  also have "\<dots> = width (size_chunk c) * height (size_chunk c) * width (size_chunk c)"
    using pos by (simp add: length_coords ac_simps)
  finally show ?thesis
    using consistent_mesh(3) [OF c m] by simp
qed

lemma getMatrixAt_in: "0 \<le> i \<Longrightarrow> i < maxCount m \<Longrightarrow> getMatrixAt m i = matrix m i"
  by (simp add: getMatrixAt_def)

text \<open>The facts about a visible cell and the last slot of its batch.\<close>

lemma consistent_last:
  assumes c: "consistent env c" and q: "inBounds c x y z"
    and i: "instanceId (cellAt c x y z) = Some i"
  shows "\<exists>m lx ly lz.
      children c (id_block (cellAt c x y z)) = Some m \<and> 0 \<le> i \<and> i < count m \<and>
      matrix m i = Some (x, y, z) \<and> count m \<le> maxCount m \<and>
      matrix m (count m - 1) = Some (lx, ly, lz) \<and> inBounds c lx ly lz \<and>
      id_block (cellAt c lx ly lz) = id_block (cellAt c x y z) \<and>
      instanceId (cellAt c lx ly lz) = Some (count m - 1) \<and>
      ((lx, ly, lz) = (x, y, z) \<longleftrightarrow> i = count m - 1)"
proof -
  from consistent_cell [OF c q i] obtain m where
    m: "children c (id_block (cellAt c x y z)) = Some m" "0 \<le> i" "i < count m"
    "matrix m i = Some (x, y, z)"
    by blast
  have le: "count m \<le> maxCount m"
    by (rule consistent_count_le [OF c m(1) q])
  have "0 \<le> count m - 1" "count m - 1 < count m"
    using m(2,3) by simp_all
  from consistent_slot [OF c m(1) this] obtain lx ly lz where
    l: "matrix m (count m - 1) = Some (lx, ly, lz)" "inBounds c lx ly lz"
    "id_block (cellAt c lx ly lz) = id_block (cellAt c x y z)"
    "instanceId (cellAt c lx ly lz) = Some (count m - 1)"
    by blast
  have "(lx, ly, lz) = (x, y, z) \<longleftrightarrow> i = count m - 1"
  proof
    assume "(lx, ly, lz) = (x, y, z)"
    then show "i = count m - 1" using l(4) i by simp
  next
    assume "i = count m - 1"
    then show "(lx, ly, lz) = (x, y, z)" using l(1) m(4) by simp
  qed
  with m le l show ?thesis by blast
qed

lemma deleteBlockInstance_hidden:
  assumes "shaped c" "inBounds c x y z" "instanceId (cellAt c x y z) = None"
  shows "deleteBlockInstance c x y z = Inr c"
  using assms by (simp add: deleteBlockInstance_def getBlock_in)

lemma deleteBlockInstance_visible:
  assumes c: "consistent env c" and q: "inBounds c x y z"
    and i: "instanceId (cellAt c x y z) = Some i"
    and m: "children c (id_block (cellAt c x y z)) = Some m"
    and l: "matrix m (count m - 1) = Some (lx, ly, lz)"
  shows "deleteBlockInstance c x y z =
           Inr (unlinked c x y z i (id_block (cellAt c x y z)) m lx ly lz)"
proof -
  note s = consistent_shaped [OF c]
  from consistent_last [OF c q i] m l have
    f: "0 \<le> i" "i < count m" "count m \<le> maxCount m" "inBounds c lx ly lz"
    by auto
  let ?c1 = "putCell c lx ly lz ((cellAt c lx ly lz)\<lparr>instanceId := Some i\<rparr>)"
  let ?m' = "m\<lparr>matrix := (matrix m)(i \<mapsto> (lx, ly, lz)), count := count m - 1\<rparr>"
  let ?b = "id_block (cellAt c x y z)"
  have g: "getBlock c x y z = Inr (Some (cellAt c x y z))"
    by (rule getBlock_in [OF s q])
  have lm: "getMatrixAt m (count m - 1) = Some (lx, ly, lz)"
    using f l by (simp add: getMatrixAt_def)
  have s1: "setBlockInstanceId c lx ly lz (Some i) = Inr ?c1"
    by (rule setBlockInstanceId_in [OF s f(4)])
  have sm: "(setMatrixAt m i (Some (lx, ly, lz)))\<lparr>count := count m - 1\<rparr> = ?m'"
    using f by (simp add: setMatrixAt_def)
  have sh1: "shaped (?c1\<lparr>children := (children ?c1)(?b \<mapsto> ?m')\<rparr>)"
    using shaped_putCell [OF s] by simp
  have q1: "inBounds (?c1\<lparr>children := (children ?c1)(?b \<mapsto> ?m')\<rparr>) x y z"
    using q by simp
  have at: "(cellAt ?c1 x y z)\<lparr>instanceId := None\<rparr> = (cellAt c x y z)\<lparr>instanceId := None\<rparr>"
    using cellAt_putCell [OF s f(4) q] by simp
  have s2: "setBlockInstanceId (?c1\<lparr>children := (children ?c1)(?b \<mapsto> ?m')\<rparr>) x y z None =
      Inr (unlinked c x y z i ?b m lx ly lz)"
    using setBlockInstanceId_in [OF sh1 q1, of None] at
    by (simp add: unlinked_def putCell_children)
  show ?thesis
    using g i m lm s1 sm s2 by (simp add: deleteBlockInstance_def Let_def)
qed

lemma unlinked_fields [simp]:
  "size_chunk (unlinked c x y z i b m lx ly lz) = size_chunk c"
  "params (unlinked c x y z i b m lx ly lz) = params c"
  "dataStore (unlinked c x y z i b m lx ly lz) = dataStore c"
  "position (unlinked c x y z i b m lx ly lz) = position c"
  "loaded (unlinked c x y z i b m lx ly lz) = loaded c"
  "children (unlinked c x y z i b m lx ly lz) =
     (children c)(b \<mapsto> m\<lparr>matrix := (matrix m)(i \<mapsto> (lx, ly, lz)), count := count m - 1\<rparr>)"
  "inBounds (unlinked c x y z i b m lx ly lz) = inBounds c"
  by (simp_all add: unlinked_def inBounds_def fun_eq_iff)

lemma unlinked_cells:
  assumes s: "shaped c" and q: "inBounds c x y z" and l: "inBounds c lx ly lz"
  shows "shaped (unlinked c x y z i b m lx ly lz)"
    and "cellAt (unlinked c x y z i b m lx ly lz) x y z = (cellAt c x y z)\<lparr>instanceId := None\<rparr>"
    and "(lx, ly, lz) \<noteq> (x, y, z) \<Longrightarrow>
           cellAt (unlinked c x y z i b m lx ly lz) lx ly lz = (cellAt c lx ly lz)\<lparr>instanceId := Some i\<rparr>"
    and "\<And>x' y' z'. inBounds c x' y' z' \<Longrightarrow> (x', y', z') \<noteq> (x, y, z) \<Longrightarrow>
           (x', y', z') \<noteq> (lx, ly, lz) \<Longrightarrow>
           cellAt (unlinked c x y z i b m lx ly lz) x' y' z' = cellAt c x' y' z'"
proof -
  let ?c1 = "putCell c lx ly lz ((cellAt c lx ly lz)\<lparr>instanceId := Some i\<rparr>)"
  have s1: "shaped ?c1" by (rule shaped_putCell [OF s])
  have q1: "inBounds ?c1 x y z" using q by simp
  show "shaped (unlinked c x y z i b m lx ly lz)"
    using shaped_putCell [OF s1] by (simp add: unlinked_def)
  show "cellAt (unlinked c x y z i b m lx ly lz) x y z = (cellAt c x y z)\<lparr>instanceId := None\<rparr>"
    using cellAt_putCell_same [OF s1 q1] by (simp add: unlinked_def)
  show "cellAt (unlinked c x y z i b m lx ly lz) lx ly lz = (cellAt c lx ly lz)\<lparr>instanceId := Some i\<rparr>"
    if "(lx, ly, lz) \<noteq> (x, y, z)"
  proof -
    have l1: "inBounds ?c1 lx ly lz" using l by simp
    have "cellAt (unlinked c x y z i b m lx ly lz) lx ly lz = cellAt ?c1 lx ly lz"
      using cellAt_putCell_other [OF s1 q1 l1 that] by (simp add: unlinked_def)
    then show ?thesis
      using cellAt_putCell_same [OF s l] by simp
  qed
  show "cellAt (unlinked c x y z i b m lx ly lz) x' y' z' = cellAt c x' y' z'"
    if "inBounds c x' y' z'" "(x', y', z') \<noteq> (x, y, z)" "(x', y', z') \<noteq> (lx, ly, lz)" for x' y' z'
  proof -
    have p1: "inBounds ?c1 x' y' z'" using that(1) by simp
    have "cellAt (unlinked c x y z i b m lx ly lz) x' y' z' = cellAt ?c1 x' y' z'"
      using cellAt_putCell_other [OF s1 q1 p1 that(2)] by (simp add: unlinked_def)
    then show ?thesis
      using cellAt_putCell_other [OF s l that(1,3)] by simp
  qed
qed

lemma consistent_unlinked:
  assumes c: "consistent env c" and q: "inBounds c x y z"
    and i: "instanceId (cellAt c x y z) = Some i"
    and m: "children c (id_block (cellAt c x y z)) = Some m"
    and l: "matrix m (count m - 1) = Some (lx, ly, lz)"
  shows "consistent env (unlinked c x y z i (id_block (cellAt c x y z)) m lx ly lz)"
proof -
  let ?b = "id_block (cellAt c x y z)"
  let ?n = "count m"
  let ?c' = "unlinked c x y z i ?b m lx ly lz"
  let ?m' = "m\<lparr>matrix := (matrix m)(i \<mapsto> (lx, ly, lz)), count := ?n - 1\<rparr>"
  note s = consistent_shaped [OF c]
  from consistent_last [OF c q i] m l have
    f: "0 \<le> i" "i < ?n" "matrix m i = Some (x, y, z)" "inBounds c lx ly lz"
    "id_block (cellAt c lx ly lz) = ?b" "instanceId (cellAt c lx ly lz) = Some (?n - 1)"
    "(lx, ly, lz) = (x, y, z) \<longleftrightarrow> i = ?n - 1"
    by auto
  have last_q: "i = ?n - 1" if "(lx, ly, lz) = (x, y, z)"
    using f(7) that by blast
  have q_last: "(lx, ly, lz) = (x, y, z)" if "i = ?n - 1"
    using f(7) that by blast
  note uc = unlinked_cells [OF s q f(4), where i = i and b = ?b and m = m]
  note cm = consistent_mesh [OF c m]
  have ch: "children ?c' b' = (if b' = ?b then Some ?m' else children c b')" for b'
    by simp
  have m': "count ?m' = ?n - 1" "maxCount ?m' = maxCount m" "matrix ?m' i = Some (lx, ly, lz)"
    "\<And>j. j \<noteq> i \<Longrightarrow> matrix ?m' j = matrix m j"
    by simp_all
  have keep_b: "j < ?n - 1 \<and> j \<noteq> i"
    if "inBounds c x' y' z'" "(x', y', z') \<noteq> (x, y, z)" "(x', y', z') \<noteq> (lx, ly, lz)"
      "0 \<le> j" "j < ?n" "matrix m j = Some (x', y', z')" for x' y' z' j
  proof -
    have "j \<noteq> ?n - 1" using that(3,6) l by auto
    moreover have "j \<noteq> i" using that(2,6) f(3) by auto
    ultimately show ?thesis using that(5) by simp
  qed
  show ?thesis
    unfolding consistent_def
  proof (intro conjI ballI allI impI)
    show "shaped ?c'" by (rule uc(1))
  next
    fix b'
    assume "b' \<in> set (block_ids env)" "b' \<noteq> empty_id env"
    from consistent_dom [OF c this] show "children ?c' b' \<noteq> None"
      by (auto simp: ch)
  next
    fix x' y' z' j
    assume ib: "inBounds ?c' x' y' z'" and j: "instanceId (cellAt ?c' x' y' z') = Some j"
    have ibc: "inBounds c x' y' z'" using ib by simp
    have nq: "(x', y', z') \<noteq> (x, y, z)"
    proof
      assume "(x', y', z') = (x, y, z)"
      then have "instanceId (cellAt ?c' x' y' z') = None" using uc(2) by simp
      then show False using j by simp
    qed
    show "\<exists>k. children ?c' (id_block (cellAt ?c' x' y' z')) = Some k \<and> 0 \<le> j \<and> j < count k \<and>
        matrix k j = Some (x', y', z')"
    proof (cases "(x', y', z') = (lx, ly, lz)")
      case True
      then have e: "x' = lx" "y' = ly" "z' = lz" by simp_all
      have lq: "(lx, ly, lz) \<noteq> (x, y, z)" using nq True by simp
      note a = uc(3) [OF lq]
      have "j = i" using j a e by simp
      moreover have "children ?c' (id_block (cellAt ?c' lx ly lz)) = Some ?m'"
        using a f(5) ch by simp
      moreover have "i < ?n - 1"
      proof -
        have "i \<noteq> ?n - 1" using lq q_last by blast
        then show ?thesis using f(2) by simp
      qed
      ultimately show ?thesis
        using e f(1) m'(1,3) by simp
    next
      case False
      note o = uc(4) [OF ibc nq False]
      have "instanceId (cellAt c x' y' z') = Some j" using j o by simp
      from consistent_cell [OF c ibc this] obtain k where
        k: "children c (id_block (cellAt c x' y' z')) = Some k" "0 \<le> j" "j < count k"
        "matrix k j = Some (x', y', z')"
        by blast
      show ?thesis
      proof (cases "id_block (cellAt c x' y' z') = ?b")
        case True
        then have km: "k = m" using k(1) m by simp
        from keep_b [OF ibc nq False k(2)] k(3,4) km have jj: "j < ?n - 1" "j \<noteq> i"
          by simp_all
        have "children ?c' (id_block (cellAt ?c' x' y' z')) = Some ?m'"
          using True o ch by simp
        moreover have "j < count ?m'" using jj(1) by simp
        moreover have "matrix ?m' j = Some (x', y', z')"
          using m'(4) [OF jj(2)] k(4) km by simp
        ultimately show ?thesis using k(2) by blast
      next
        case False
        then have "children ?c' (id_block (cellAt ?c' x' y' z')) = Some k"
          using o k(1) ch by simp
        then show ?thesis using k(2,3,4) by blast
      qed
    qed
  next
    fix b' k
    assume k: "children ?c' b' = Some k"
    show "b' \<noteq> empty_id env"
    proof (cases "b' = ?b")
      case True
      then show ?thesis using cm(1) by simp
    next
      case False
      then have "children c b' = Some k" using k by simp
      from consistent_mesh(1) [OF c this] show ?thesis .
    qed
    show "0 \<le> count k"
    proof (cases "b' = ?b")
      case True
      then have "k = ?m'" using k by simp
      then show ?thesis using f(1,2) by simp
    next
      case False
      then have "children c b' = Some k" using k by simp
      from consistent_mesh(2) [OF c this] show ?thesis .
    qed
    show "maxCount k = width (size_chunk ?c') * height (size_chunk ?c') * width (size_chunk ?c')"
    proof (cases "b' = ?b")
      case True
      then have "k = ?m'" using k by simp
      then show ?thesis using cm(3) by simp
    next
      case False
      then have "children c b' = Some k" using k by simp
      from consistent_mesh(3) [OF c this] show ?thesis by simp
    qed
  next
    fix b' k j
    assume k: "children ?c' b' = Some k" and j: "0 \<le> j \<and> j < count k"
    show "\<exists>x' y' z'. matrix k j = Some (x', y', z') \<and> inBounds ?c' x' y' z' \<and>
        id_block (cellAt ?c' x' y' z') = b' \<and> instanceId (cellAt ?c' x' y' z') = Some j"
    proof (cases "b' = ?b")
      case False
      then have kc: "children c b' = Some k" using k by simp
      from consistent_slot [OF c kc] j obtain x' y' z' where
        w: "matrix k j = Some (x', y', z')" "inBounds c x' y' z'"
        "id_block (cellAt c x' y' z') = b'" "instanceId (cellAt c x' y' z') = Some j"
        by blast
      have nq: "(x', y', z') \<noteq> (x, y, z)" using w(3) False by auto
      have nl: "(x', y', z') \<noteq> (lx, ly, lz)" using w(3) False f(5) by auto
      note o = uc(4) [OF w(2) nq nl]
      have "inBounds ?c' x' y' z'" using w(2) by simp
      then show ?thesis using w(1,3,4) o by metis
    next
      case True
      then have kk: "k = ?m'" using k by simp
      then have jn: "0 \<le> j" "j < ?n - 1" using j by simp_all
      show ?thesis
      proof (cases "j = i")
        case eq: True
        have "i \<noteq> ?n - 1" using jn(2) eq by simp
        then have lq: "(lx, ly, lz) \<noteq> (x, y, z)" using last_q by blast
        note a = uc(3) [OF lq]
        have "matrix k j = Some (lx, ly, lz)" using kk eq by simp
        moreover have "inBounds ?c' lx ly lz" using f(4) by simp
        moreover have "id_block (cellAt ?c' lx ly lz) = b'" "instanceId (cellAt ?c' lx ly lz) = Some j"
          using a f(5) True eq by simp_all
        ultimately show ?thesis by blast
      next
        case neq: False
        have "j < ?n" using jn(2) by simp
        from consistent_slot [OF c m jn(1) this] obtain x' y' z' where
          w: "matrix m j = Some (x', y', z')" "inBounds c x' y' z'"
          "id_block (cellAt c x' y' z') = ?b" "instanceId (cellAt c x' y' z') = Some j"
          by blast
        have nq: "(x', y', z') \<noteq> (x, y, z)" using w(4) i neq by auto
        have nl: "(x', y', z') \<noteq> (lx, ly, lz)" using w(4) f(6) jn(2) by auto
        note o = uc(4) [OF w(2) nq nl]
        have "matrix k j = Some (x', y', z')"
          using w(1) kk m'(4) [OF neq] by simp
        moreover have "inBounds ?c' x' y' z'" using w(2) by simp
        ultimately show ?thesis using w(3,4) o True by metis
      qed
    qed
  qed
qed

lemma addBlock_unregistered:
  assumes c: "consistent env c" and q: "inBounds c x y z"
    and e: "id_block (cellAt c x y z) = empty_id env"
    and b: "b \<noteq> empty_id env" and m: "children c b = None"
  shows "addBlock env c x y z b = Inl TypeError"
proof -
  note s = consistent_shaped [OF c]
  let ?cl = "cellAt c x y z"
  have n: "instanceId ?cl = None"
    by (rule consistent_empty [OF c q e])
  have cl: "?cl\<lparr>id_block := b\<rparr> = \<lparr>id_block = b, instanceId = None\<rparr>"
    using n by (cases ?cl) simp
  let ?c1 = "putCell c x y z \<lparr>id_block = b, instanceId = None\<rparr>"
  have g: "getBlock c x y z = Inr (Some ?cl)"
    by (rule getBlock_in [OF s q])
  have s1: "setBlockId c x y z b = Inr ?c1"
    using setBlockId_in [OF s q, of b] cl by simp
  have sh1: "shaped ?c1" by (rule shaped_putCell [OF s])
  have q1: "inBounds ?c1 x y z" using q by simp
  have g1: "getBlock ?c1 x y z = Inr (Some \<lparr>id_block = b, instanceId = None\<rparr>)"
    using getBlock_in [OF sh1 q1] cellAt_putCell_same [OF s q] by simp
  have a: "addBlockInstance env ?c1 x y z = Inl TypeError"
    using g1 b m by (simp add: addBlockInstance_def)
  show ?thesis
    using g e s1 a by (simp add: addBlock_def)
qed

lemma addBlock_cases:
  assumes c: "consistent env c"
  shows "addBlock env c x y z b =
     (if inBounds c x y z \<and> id_block (cellAt c x y z) = empty_id env then
        (if b = empty_id env then
           Inr (c\<lparr>dataStore := (dataStore c)((vx (position c), vz (position c), x, y, z) \<mapsto> b)\<rparr>)
         else
           (case children c b of
              None \<Rightarrow> Inl TypeError
            | Some m \<Rightarrow>
                Inr ((placed c x y z b m)\<lparr>dataStore :=
                       (dataStore c)((vx (position c), vz (position c), x, y, z) \<mapsto> b)\<rparr>)))
      else Inr c)"
proof (cases "inBounds c x y z")
  case False
  then show ?thesis
    by (simp add: addBlock_def getBlock_out)
next
  case True
  note g = getBlock_in [OF consistent_shaped [OF c] True]
  show ?thesis
  proof (cases "id_block (cellAt c x y z) = empty_id env")
    case False
    then show ?thesis
      using True g by (simp add: addBlock_def)
  next
    case e: True
    show ?thesis
    proof (cases "b = empty_id env")
      case True
      then show ?thesis
        using addBlock_consistent_empty_id [OF c \<open>inBounds c x y z\<close> e] e \<open>inBounds c x y z\<close> by simp
    next
      case nb: False
      show ?thesis
      proof (cases "children c b")
        case None
        then show ?thesis
          using addBlock_unregistered [OF c True e nb] True e nb by simp
      next
        case (Some m)
        then show ?thesis
          using addBlock_consistent [OF c True e nb] True e nb by simp
      qed
    qed
  qed
qed

lemma deleteBlockInstance_consistent:
  assumes c: "consistent env c" and q: "inBounds c x y z"
  shows "deleteBlockInstance c x y z = Inr (detached c x y z)"
    and "consistent env (detached c x y z)"
    and "inBounds (detached c x y z) = inBounds c"
    and "cellAt (detached c x y z) x y z = (cellAt c x y z)\<lparr>instanceId := None\<rparr>"
    and "dataStore (detached c x y z) = dataStore c" "position (detached c x y z) = position c"
proof -
  note s = consistent_shaped [OF c]
  have "deleteBlockInstance c x y z = Inr (detached c x y z) \<and>
      consistent env (detached c x y z) \<and>
      inBounds (detached c x y z) = inBounds c \<and>
      cellAt (detached c x y z) x y z = (cellAt c x y z)\<lparr>instanceId := None\<rparr> \<and>
      dataStore (detached c x y z) = dataStore c \<and> position (detached c x y z) = position c"
  proof (cases "instanceId (cellAt c x y z)")
    case None
    then have d: "detached c x y z = c" by (simp add: detached_def)
    have "(cellAt c x y z)\<lparr>instanceId := None\<rparr> = cellAt c x y z"
      using None by (cases "cellAt c x y z") simp
    then show ?thesis
      using deleteBlockInstance_hidden [OF s q None] c d by simp
  next
    case (Some i)
    from consistent_last [OF c q Some] obtain m lx ly lz where
      f: "children c (id_block (cellAt c x y z)) = Some m"
      "matrix m (count m - 1) = Some (lx, ly, lz)" "inBounds c lx ly lz"
      by blast
    have d: "detached c x y z = unlinked c x y z i (id_block (cellAt c x y z)) m lx ly lz"
      using Some f by (simp add: detached_def)
    show ?thesis
      using deleteBlockInstance_visible [OF c q Some f(1,2)]
        consistent_unlinked [OF c q Some f(1,2)]
        unlinked_cells(2) [OF s q f(3), where i = i and b = "id_block (cellAt c x y z)" and m = m]
      by (simp add: d)
  qed
  then show "deleteBlockInstance c x y z = Inr (detached c x y z)"
    and "consistent env (detached c x y z)"
    and "inBounds (detached c x y z) = inBounds c"
    and "cellAt (detached c x y z) x y z = (cellAt c x y z)\<lparr>instanceId := None\<rparr>"
    and "dataStore (detached c x y z) = dataStore c" "position (detached c x y z) = position c"
    by simp_all
qed

lemma removeBlock_cases:
  assumes c: "consistent env c"
  shows "removeBlock env c x y z =
     (if inBounds c x y z \<and> id_block (cellAt c x y z) \<noteq> empty_id env then
        Inr ((putCell (detached c x y z) x y z \<lparr>id_block = empty_id env, instanceId = None\<rparr>)
               \<lparr>dataStore := (dataStore c)((vx (position c), vz (position c), x, y, z) \<mapsto> empty_id env)\<rparr>)
      else Inr c)"
proof (cases "inBounds c x y z")
  case False
  then show ?thesis
    by (simp add: removeBlock_def getBlock_out)
next
  case True
  note s = consistent_shaped [OF c]
  note g = getBlock_in [OF s True]
  show ?thesis
  proof (cases "id_block (cellAt c x y z) = empty_id env")
    case e: True
    then show ?thesis
      using True g by (simp add: removeBlock_def)
  next
    case False
    note d = deleteBlockInstance_consistent [OF c True]
    have sd: "shaped (detached c x y z)" by (rule consistent_shaped [OF d(2)])
    have qd: "inBounds (detached c x y z) x y z" using d(3) True by simp
    have cl: "(cellAt (detached c x y z) x y z)\<lparr>id_block := empty_id env\<rparr> =
        \<lparr>id_block = empty_id env, instanceId = None\<rparr>"
      using d(4) by (cases "cellAt c x y z") simp
    have sb: "setBlockId (detached c x y z) x y z (empty_id env) =
        Inr (putCell (detached c x y z) x y z \<lparr>id_block = empty_id env, instanceId = None\<rparr>)"
      using setBlockId_in [OF sd qd, of "empty_id env"] cl by simp
    show ?thesis
      using True False g d(1) sb d(5,6) by (simp add: removeBlock_def set_store_def)
  qed
qed

lemma addBlock_preserves:
  assumes c: "consistent env c" and r: "addBlock env c x y z b = Inr c'"
  shows "consistent env c'"
proof (cases "inBounds c x y z \<and> id_block (cellAt c x y z) = empty_id env")
  case False
  then have "c' = c" using r addBlock_cases [OF c, of x y z b] by auto
  then show ?thesis using c by simp
next
  case True
  then have q: "inBounds c x y z" and e: "id_block (cellAt c x y z) = empty_id env" by simp_all
  show ?thesis
  proof (cases "b = empty_id env")
    case eb: True
    then have "c' = c\<lparr>dataStore := (dataStore c)((vx (position c), vz (position c), x, y, z) \<mapsto> b)\<rparr>"
      using r addBlock_cases [OF c, of x y z b] True by simp
    then show ?thesis using c by simp
  next
    case nb: False
    then obtain m where m: "children c b = Some m"
      and c': "c' = (placed c x y z b m)\<lparr>dataStore :=
                       (dataStore c)((vx (position c), vz (position c), x, y, z) \<mapsto> b)\<rparr>"
      using r addBlock_cases [OF c, of x y z b] True by (auto split: option.splits)
    have "consistent env (placed c x y z b m)"
      by (rule consistent_placed [OF c q consistent_empty [OF c q e] nb m])
    then show ?thesis using c' by simp
  qed
qed

lemma removeBlock_preserves:
  assumes c: "consistent env c" and r: "removeBlock env c x y z = Inr c'"
  shows "consistent env c'"
proof (cases "inBounds c x y z \<and> id_block (cellAt c x y z) \<noteq> empty_id env")
  case False
  then have "c' = c" using r removeBlock_cases [OF c, of x y z] by auto
  then show ?thesis using c by simp
next
  case True
  then have q: "inBounds c x y z" by simp
  note d = deleteBlockInstance_consistent [OF c q]
  have c': "c' = (putCell (detached c x y z) x y z \<lparr>id_block = empty_id env, instanceId = None\<rparr>)
               \<lparr>dataStore := (dataStore c)((vx (position c), vz (position c), x, y, z) \<mapsto> empty_id env)\<rparr>"
    using r removeBlock_cases [OF c, of x y z] True by simp
  have qd: "inBounds (detached c x y z) x y z" using d(3) q by simp
  have nd: "instanceId (cellAt (detached c x y z) x y z) = None" using d(4) by simp
  have "consistent env (putCell (detached c x y z) x y z \<lparr>id_block = empty_id env, instanceId = None\<rparr>)"
    by (rule consistent_cleared [OF d(2) qd nd])
  then show ?thesis using c' by simp
qed

lemma reachable_consistent: "reachable env c \<Longrightarrow> consistent env c"
proof (induction rule: reachable.induct)
  case (generated c0 c)
  then show ?case by (rule generate_result(1))
next
  case (added c x y z b c')
  then show ?case by (simp add: addBlock_preserves)
next
  case (removed c x y z c')
  then show ?case by (simp add: removeBlock_preserves)
qed

section \<open>Determinism of generation\<close>

lemma forEach_rel:
  assumes "\<And>i s t. R s t \<Longrightarrow> rel_sum (=) R (f i s) (g i t)" and "R s t"
  shows "rel_sum (=) R (forEach js f s) (forEach js g t)"
  using assms(2)
proof (induction js arbitrary: s t)
  case Nil
  then show ?case by simp
next
  case (Cons i js)
  from assms(1) [OF Cons.prems, of i] show ?case
    by (cases "f i s"; cases "g i t") (simp_all add: Cons.IH)
qed

lemma agree_getBlock: "agree c1 c2 \<Longrightarrow> getBlock c1 x y z = getBlock c2 x y z"
  by (simp add: agree_def getBlock_def inBounds_def)

lemma agree_setBlockId:
  "agree c1 c2 \<Longrightarrow> rel_sum (=) agree (setBlockId c1 x y z b) (setBlockId c2 x y z b)"
  by (auto simp: agree_def setBlockId_def inBounds_def split: sum.splits option.splits)

lemma agree_setBlockInstanceId:
  "agree c1 c2 \<Longrightarrow> rel_sum (=) agree (setBlockInstanceId c1 x y z i) (setBlockInstanceId c2 x y z i)"
  by (auto simp: agree_def setBlockInstanceId_def inBounds_def split: sum.splits option.splits)

lemma agree_refl_Inr: "agree c1 c2 \<Longrightarrow> rel_sum (=) agree (Inr c1) (Inr c2)"
  by simp

lemma agree_resourceStep:
  assumes "agree c1 c2"
  shows "rel_sum (=) agree (resourceStep env r x y z c1) (resourceStep env r x y z c2)"
proof -
  have e: "params c1 = params c2" "position c1 = position c2"
    using assms by (simp_all add: agree_def)
  show ?thesis
    unfolding resourceStep_def Let_def e
    using agree_setBlockId [OF assms] assms by simp
qed

lemma agree_columnHeight: "agree c1 c2 \<Longrightarrow> columnHeight env c1 x z = columnHeight env c2 x z"
  by (simp add: agree_def columnHeight_def)

lemma agree_terrainRest:
  assumes "agree c1 c2"
  shows "rel_sum (=) agree (terrainRest env x z h y c1) (terrainRest env x z h y c2)"
  unfolding terrainRest_def using agree_setBlockId [OF assms] assms by simp

lemma agree_terrainStep:
  assumes "agree c1 c2"
  shows "rel_sum (=) agree (terrainStep env x z h y c1) (terrainStep env x z h y c2)"
proof (cases "getBlock c2 x y z")
  case (Inl e)
  then show ?thesis
    using agree_terrainRest [OF assms] by (simp add: terrainStep_def agree_getBlock [OF assms])
next
  case (Inr b)
  show ?thesis
  proof (cases b)
    case None
    then show ?thesis
      using Inr agree_terrainRest [OF assms, of env x z h y]
      by (simp add: terrainStep_def agree_getBlock [OF assms])
  next
    case (Some cl)
    then show ?thesis
      using Inr agree_terrainRest [OF assms, of env x z h y]
        agree_setBlockId [OF assms, of x y z "dirt_id env"]
      by (cases "id_block cl = empty_id env") (simp_all add: terrainStep_def agree_getBlock [OF assms])
  qed
qed

lemma agree_playerChangeStep:
  assumes "agree c1 c2"
  shows "rel_sum (=) agree (playerChangeStep x y z c1) (playerChangeStep x y z c2)"
proof -
  have e: "dataStore c1 = dataStore c2" "position c1 = position c2"
    using assms by (simp_all add: agree_def)
  show ?thesis
    unfolding playerChangeStep_def e
    using agree_setBlockId [OF assms] assms by (simp split: option.splits)
qed

lemma agree_size: "agree c1 c2 \<Longrightarrow> size_chunk c1 = size_chunk c2"
  by (simp add: agree_def)

lemma agree_generateResources:
  assumes "agree c1 c2"
  shows "rel_sum (=) agree (generateResources env c1) (generateResources env c2)"
  unfolding generateResources_def agree_size [OF assms]
  by (intro forEach_rel agree_resourceStep assms)

lemma agree_generateTerrain:
  assumes "agree c1 c2"
  shows "rel_sum (=) agree (generateTerrain env c1) (generateTerrain env c2)"
  unfolding generateTerrain_def agree_size [OF assms]
proof (intro forEach_rel assms)
  fix x z :: int and s t
  assume st: "agree s t"
  show "rel_sum (=) agree
      (forEach [0 .. height (size_chunk s)] (terrainStep env x z (columnHeight env s x z)) s)
      (forEach [0 .. height (size_chunk t)] (terrainStep env x z (columnHeight env t x z)) t)"
    unfolding agree_size [OF st] agree_columnHeight [OF st]
    by (intro forEach_rel agree_terrainStep st)
qed

lemma agree_loadPlayerChanges:
  assumes "agree c1 c2"
  shows "rel_sum (=) agree (loadPlayerChanges c1) (loadPlayerChanges c2)"
  unfolding loadPlayerChanges_def agree_size [OF assms]
  by (intro forEach_rel agree_playerChangeStep assms)

lemma agree_isBlockObscured:
  "agree c1 c2 \<Longrightarrow> isBlockObscured env c1 x y z = isBlockObscured env c2 x y z"
  by (simp add: isBlockObscured_def neighbourId_def agree_getBlock)

lemma agree_meshStep:
  assumes "agreeMesh l1 l2 (c1, ms1) (c2, ms2)"
  shows "rel_sum (=) (agreeMesh l1 l2) (meshStep env x y z (c1, ms1)) (meshStep env x y z (c2, ms2))"
proof -
  have a: "agree c1 c2" and m: "ms1 = ms2" using assms by (simp_all add: agreeMesh_def)
  note gb = agree_getBlock [OF a]
  note ob = agree_isBlockObscured [OF a]
  have set: "rel_sum (=) (\<lambda>a b. agreeMesh l1 l2 (a, k) (b, k))
      (setBlockInstanceId c1 x y z i) (setBlockInstanceId c2 x y z i)" for i and k :: "int \<rightharpoonup> mesh"
    using assms
    by (auto simp: agreeMesh_def agree_def setBlockInstanceId_def inBounds_def
        split: sum.splits option.splits)
  show ?thesis
  proof (cases "getBlock c2 x y z")
    case (Inl e)
    then show ?thesis
      by (simp add: meshStep_def gb)
  next
    case (Inr b)
    show ?thesis
    proof (cases b)
      case None
      then show ?thesis
        using Inr by (simp add: meshStep_def gb)
    next
      case (Some cl)
      show ?thesis
      proof (cases "id_block cl = empty_id env")
        case True
        then show ?thesis
          using Inr Some assms by (simp add: meshStep_def gb)
      next
        case ne: False
        show ?thesis
        proof (cases "ms2 (id_block cl)")
          case None
          then show ?thesis
            using Inr Some ne by (simp add: meshStep_def gb m)
        next
          case mm: (Some mm)
          show ?thesis
          proof (cases "isBlockObscured env c2 x y z")
            case (Inl e)
            then show ?thesis
              using Inr Some ne mm by (simp add: meshStep_def gb ob m)
          next
            case o: (Inr obscured)
            show ?thesis
            proof (cases obscured)
              case True
              then show ?thesis
                using Inr Some ne mm o assms by (simp add: meshStep_def gb ob m)
            next
              case False
              from set [of "ms2(id_block cl \<mapsto> (setMatrixAt mm (count mm) (Some (x, y, z)))\<lparr>count := count mm + 1\<rparr>)"
                  "Some (count mm)"]
              show ?thesis
                using Inr Some ne mm o False
                by (cases "setBlockInstanceId c1 x y z (Some (count mm))";
                    cases "setBlockInstanceId c2 x y z (Some (count mm))")
                  (simp_all add: meshStep_def gb ob m)
            qed
          qed
        qed
      qed
    qed
  qed
qed

lemma agree_generateMeshes:
  assumes "agree c1 c2"
  shows "rel_sum (=) (\<lambda>c1' c2'. agree c1' c2' \<and> children c1' = children c2' \<and>
            loaded c1' = loaded c1 \<and> loaded c2' = loaded c2)
           (generateMeshes env c1) (generateMeshes env c2)"
proof -
  let ?R = "agreeMesh (loaded c1) (loaded c2)"
  let ?cap = "width (size_chunk c2) * height (size_chunk c2) * width (size_chunk c2)"
  let ?l1 = "forEach (coords c2) (\<lambda>(x, y, z). meshStep env x y z)
      (c1\<lparr>children := Map.empty\<rparr>, newMeshes env ?cap)"
  let ?l2 = "forEach (coords c2) (\<lambda>(x, y, z). meshStep env x y z)
      (c2\<lparr>children := Map.empty\<rparr>, newMeshes env ?cap)"
  have init: "?R (c1\<lparr>children := Map.empty\<rparr>, newMeshes env ?cap) (c2\<lparr>children := Map.empty\<rparr>, newMeshes env ?cap)"
    using assms by (simp add: agree_def agreeMesh_def)
  have loop: "rel_sum (=) ?R ?l1 ?l2"
  proof (rule forEach_rel [where R = ?R])
    show "?R (c1\<lparr>children := Map.empty\<rparr>, newMeshes env ?cap) (c2\<lparr>children := Map.empty\<rparr>, newMeshes env ?cap)"
      by (rule init)
  next
    fix i :: "int \<times> int \<times> int" and s t :: "chunk \<times> (int \<rightharpoonup> mesh)"
    assume r: "?R s t"
    obtain x y z where i: "i = (x, y, z)" by (cases i)
    obtain a ms1 where s: "s = (a, ms1)" by (cases s)
    obtain b ms2 where t: "t = (b, ms2)" by (cases t)
    from agree_meshStep [OF r [unfolded s t], of env x y z]
    show "rel_sum (=) ?R ((case i of (x, y, z) \<Rightarrow> meshStep env x y z) s)
        ((case i of (x, y, z) \<Rightarrow> meshStep env x y z) t)"
      by (simp add: i s t)
  qed
  have "rel_sum (=) (\<lambda>c1' c2'. agree c1' c2' \<and> children c1' = children c2' \<and>
            loaded c1' = loaded c1 \<and> loaded c2' = loaded c2)
      (andThen ?l1 (\<lambda>(c', meshes). Inr (c'\<lparr>children := meshes\<rparr>)))
      (andThen ?l2 (\<lambda>(c', meshes). Inr (c'\<lparr>children := meshes\<rparr>)))"
    using loop by (cases ?l1; cases ?l2) (auto simp: agree_def agreeMesh_def)
  moreover have "coords c1 = coords c2"
    using assms by (simp add: coords_def agree_def)
  ultimately show ?thesis
    by (simp add: generateMeshes_loop agree_size [OF assms])
qed

lemma andThen_rel:
  assumes "rel_sum (=) R m1 m2" and "\<And>a b. R a b \<Longrightarrow> rel_sum (=) S (f a) (g b)"
  shows "rel_sum (=) S (andThen m1 f) (andThen m2 g)"
  using assms(1) by (cases m1; cases m2) (simp_all add: assms(2))

lemma generate_agree:
  assumes "size_chunk c1 = size_chunk c2" "params c1 = params c2" "position c1 = position c2"
    "dataStore c1 = dataStore c2"
  shows "generate env c1 = generate env c2"
proof -
  have i: "agree (initializeTerrain env c1) (initializeTerrain env c2)"
    using assms by (simp add: agree_def initializeTerrain_def)
  have 4: "rel_sum (=) (=) (andThen (generateMeshes env a) (\<lambda>c4. Inr (c4\<lparr>loaded := True\<rparr>)))
        (andThen (generateMeshes env b) (\<lambda>c4. Inr (c4\<lparr>loaded := True\<rparr>)))"
    if ab: "agree a b" for a b
    using agree_generateMeshes [OF ab, of env]
    by (cases "generateMeshes env a"; cases "generateMeshes env b") (auto simp: agree_def)
  have 3: "rel_sum (=) (=)
      (andThen (loadPlayerChanges a) (\<lambda>c3.
         andThen (generateMeshes env c3) (\<lambda>c4. Inr (c4\<lparr>loaded := True\<rparr>))))
      (andThen (loadPlayerChanges b) (\<lambda>c3.
         andThen (generateMeshes env c3) (\<lambda>c4. Inr (c4\<lparr>loaded := True\<rparr>))))"
    if ab: "agree a b" for a b
    by (rule andThen_rel [OF agree_loadPlayerChanges [OF ab]]) (rule 4)
  have 2: "rel_sum (=) (=)
      (andThen (generateTerrain env a) (\<lambda>c2. andThen (loadPlayerChanges c2) (\<lambda>c3.
         andThen (generateMeshes env c3) (\<lambda>c4. Inr (c4\<lparr>loaded := True\<rparr>)))))
      (andThen (generateTerrain env b) (\<lambda>c2. andThen (loadPlayerChanges c2) (\<lambda>c3.
         andThen (generateMeshes env c3) (\<lambda>c4. Inr (c4\<lparr>loaded := True\<rparr>)))))"
    if ab: "agree a b" for a b
    by (rule andThen_rel [OF agree_generateTerrain [OF ab]]) (rule 3)
  have "rel_sum (=) (=) (generate env c1) (generate env c2)"
    unfolding generate_def
    by (rule andThen_rel [OF agree_generateResources [OF i]]) (rule 2)
  then show ?thesis
    by (simp add: sum.rel_eq)
qed

section \<open>Totality of generation\<close>

lemma fold_choice:
  assumes "list_all (\<lambda>r. P (f r)) rs" "P b"
  shows "P (fold (\<lambda>r b. if h r then f r else b) rs b)"
  using assms by (induction rs arbitrary: b) simp_all

lemma resourceAt_registered:
  assumes "wellFormed env"
  shows "registered env (resourceAt env c x y z)"
  unfolding resourceAt_def
proof (rule fold_choice)
  show "list_all (\<lambda>r. registered env (res_id r)) (resources env)"
    using assms by (simp add: wellFormed_def)
  show "registered env (empty_id env)"
    by (simp add: registered_def)
qed

lemma generatedId_registered:
  assumes w: "wellFormed env" and st: "\<And>k v. dataStore c k = Some v \<Longrightarrow> registered env v"
  shows "registered env (generatedId env c x y z)"
proof (cases "dataStore c (vx (position c), vz (position c), x, y, z)")
  case (Some v)
  then have "generatedId env c x y z = v"
    by (simp add: generatedId_def overlayCell_def)
  then show ?thesis using st [OF Some] by simp
next
  case None
  then have "generatedId env c x y z =
      id_block (fillCell env (columnHeight env c x z) y \<lparr>id_block = resourceAt env c x y z, instanceId = None\<rparr>)"
    by (simp add: generatedId_def overlayCell_def)
  moreover have "registered env (empty_id env)" by (simp add: registered_def)
  ultimately show ?thesis
    using w resourceAt_registered [OF w, where c = c and x = x and y = y and z = z]
    by (simp add: fillCell_def wellFormed_def)
qed

lemma generate_returns:
  assumes w: "wellFormed env" and st: "\<And>k v. dataStore c k = Some v \<Longrightarrow> registered env v"
  shows "\<exists>c'. generate env c = Inr c'"
proof (rule generate_total)
  fix x y z
  show "generatedId env c x y z = empty_id env \<or> generatedId env c x y z \<in> set (block_ids env)"
    using generatedId_registered [OF w st, where x = x and y = y and z = z] by (simp add: registered_def)
qed

lemma generate_getBlock:
  assumes "generate env c = Inr c'" "inBounds c x y z"
  shows "\<exists>cl. getBlock c' x y z = Inr (Some cl) \<and> id_block cl = generatedId env c x y z"
proof -
  note r = generate_result [OF assms(1)]
  have s: "shaped c'" by (rule consistent_shaped [OF r(1)])
  have ib: "inBounds c' x y z"
    using r(3) assms(2) by (auto simp: inBounds_iff)
  show ?thesis
    using getBlock_in [OF s ib] r(4) [OF assms(2)] by simp
qed

section \<open>The claims\<close>

text \<open>
  C1: two runs of \<open>generate\<close> with the same seed and terrain parameters, origin and chunk
  size, each on a chunk with an empty Edit Store, end alike, whatever grid, meshes and
  \<open>loaded\<close> flag the two chunks had before: both fail or both return, and then the cells
  grids are equal (as is the rest of the chunk).
\<close>

theorem generate_deterministic:
  assumes "size_chunk c1 = size_chunk c2" and "params c1 = params c2"
    and "position c1 = position c2"
    and "dataStore c1 = Map.empty" and "dataStore c2 = Map.empty"
  shows "generate env c1 = generate env c2 \<and>
         (\<forall>c1' c2'. generate env c1 = Inr c1' \<and> generate env c2 = Inr c2' \<longrightarrow> data c1' = data c2')"
proof -
  have "generate env c1 = generate env c2"
    using assms by (intro generate_agree) simp_all
  then show ?thesis by auto
qed

text \<open>
  C4: with an empty Edit Store and a registry that lists dirt, grass and the resources,
  \<open>generate\<close> returns, and in every column \<open>(x, z)\<close> with clamped height \<open>h\<close> the cell at
  \<open>y = h\<close> is grass and the cells at \<open>y > h\<close> are empty whatever resource was stamped there,
  while a cell at \<open>y < h\<close> keeps the resource id stamped on it and is dirt when none was.
\<close>

theorem terrain_layers:
  assumes "dataStore c = Map.empty"
  shows "(wellFormed env \<longrightarrow> (\<exists>c'. generate env c = Inr c')) \<and>
         (\<forall>c' x y z. generate env c = Inr c' \<and> inBounds c x y z \<longrightarrow>
            (\<exists>cl. getBlock c' x y z = Inr (Some cl) \<and>
               id_block cl =
                 (if y = columnHeight env c x z then grass_id env
                  else if y > columnHeight env c x z then empty_id env
                  else if resourceAt env c x y z = empty_id env then dirt_id env
                  else resourceAt env c x y z)))"
proof (intro conjI allI impI)
  assume "wellFormed env"
  then show "\<exists>c'. generate env c = Inr c'"
    using assms by (intro generate_returns) simp_all
next
  fix c' x y z
  assume a: "generate env c = Inr c' \<and> inBounds c x y z"
  then obtain cl where cl: "getBlock c' x y z = Inr (Some cl)" "id_block cl = generatedId env c x y z"
    using generate_getBlock by blast
  have "generatedId env c x y z =
      (if y = columnHeight env c x z then grass_id env
       else if y > columnHeight env c x z then empty_id env
       else if resourceAt env c x y z = empty_id env then dirt_id env
       else resourceAt env c x y z)"
    using assms by (auto simp: generatedId_def overlayCell_def fillCell_def)
  with cl show "\<exists>cl. getBlock c' x y z = Inr (Some cl) \<and>
               id_block cl =
                 (if y = columnHeight env c x z then grass_id env
                  else if y > columnHeight env c x z then empty_id env
                  else if resourceAt env c x y z = empty_id env then dirt_id env
                  else resourceAt env c x y z)"
    by auto
qed

text \<open>
  C6: the grid that \<open>generate\<close> hands to the mesh synthesizer, and so the grid of the chunk
  that it returns, has the stored block id in every cell for which the Edit Store holds an
  entry under the chunk origin and the cell's local coordinate, whatever resources and
  terrain put there and also when the stored id is the empty one; and \<open>generate\<close> does
  return when the registry lists dirt, grass and the resources and every stored id is the
  empty id or an id of the registry.
\<close>

theorem overlay_precedence:
  "(\<exists>c3. andThen (generateResources env (initializeTerrain env c)) (\<lambda>c1.
           andThen (generateTerrain env c1) loadPlayerChanges) = Inr c3 \<and>
      (\<forall>x y z v. inBounds c x y z \<and>
          dataStore c (vx (position c), vz (position c), x, y, z) = Some v \<longrightarrow>
          (\<exists>cl. getBlock c3 x y z = Inr (Some cl) \<and> id_block cl = v))) \<and>
   (\<forall>c' x y z v. generate env c = Inr c' \<and> inBounds c x y z \<and>
        dataStore c (vx (position c), vz (position c), x, y, z) = Some v \<longrightarrow>
        (\<exists>cl. getBlock c' x y z = Inr (Some cl) \<and> id_block cl = v)) \<and>
   (wellFormed env \<and> (\<forall>k v. dataStore c k = Some v \<longrightarrow> registered env v) \<longrightarrow>
      (\<exists>c'. generate env c = Inr c'))"
proof (intro conjI allI impI)
  from generate_grid [of env c] obtain c3 where
    run: "andThen (generateResources env (initializeTerrain env c)) (\<lambda>c1.
          andThen (generateTerrain env c1) loadPlayerChanges) = Inr c3"
    and s3: "shaped c3" and f3: "\<exists>d. c3 = c\<lparr>data := d\<rparr>"
    and cells: "\<And>x y z. inBounds c x y z \<Longrightarrow>
           cellAt c3 x y z = \<lparr>id_block = generatedId env c x y z, instanceId = None\<rparr>"
    by blast
  have "\<exists>cl. getBlock c3 x y z = Inr (Some cl) \<and> id_block cl = v"
    if a: "inBounds c x y z \<and> dataStore c (vx (position c), vz (position c), x, y, z) = Some v"
    for x y z v
  proof -
    have ib: "inBounds c3 x y z"
      using f3 a by (auto simp: inBounds_iff)
    have "generatedId env c x y z = v"
      using a by (simp add: generatedId_def overlayCell_def)
    then show ?thesis
      using getBlock_in [OF s3 ib] cells a by simp
  qed
  with run show "\<exists>c3. andThen (generateResources env (initializeTerrain env c)) (\<lambda>c1.
           andThen (generateTerrain env c1) loadPlayerChanges) = Inr c3 \<and>
      (\<forall>x y z v. inBounds c x y z \<and>
          dataStore c (vx (position c), vz (position c), x, y, z) = Some v \<longrightarrow>
          (\<exists>cl. getBlock c3 x y z = Inr (Some cl) \<and> id_block cl = v))"
    by blast
next
  fix c' x y z v
  assume a: "generate env c = Inr c' \<and> inBounds c x y z \<and>
        dataStore c (vx (position c), vz (position c), x, y, z) = Some v"
  then obtain cl where cl: "getBlock c' x y z = Inr (Some cl)" "id_block cl = generatedId env c x y z"
    using generate_getBlock by blast
  have "generatedId env c x y z = v"
    using a by (simp add: generatedId_def overlayCell_def)
  with cl show "\<exists>cl. getBlock c' x y z = Inr (Some cl) \<and> id_block cl = v"
    by auto
next
  assume "wellFormed env \<and> (\<forall>k v. dataStore c k = Some v \<longrightarrow> registered env v)"
  then show "\<exists>c'. generate env c = Inr c'"
    by (intro generate_returns) auto
qed

lemma wellFormed_registry0: "wellFormed registry0"
  by (simp add: wellFormed_def registered_def registry0_def)

lemma generate_chunk0: "generate registry0 chunk0 = Inr chunk1"
proof -
  have "\<exists>c'. generate registry0 chunk0 = Inr c'"
    by (rule generate_returns [OF wellFormed_registry0]) (simp add: chunk0_def)
  then show ?thesis
    by (auto simp: chunk1_def)
qed

theorem generate_deterministic_witness:
  "generate registry0 chunk0 = generate registry0 chunk0_stale \<and>
   generate registry0 chunk0_stale = Inr chunk1 \<and>
   data chunk0_stale = [[[\<lparr>id_block = 9, instanceId = Some 5\<rparr>]]] \<and> data chunk0 = []"
proof -
  have "generate registry0 chunk0 = generate registry0 chunk0_stale"
    using generate_deterministic [of chunk0 chunk0_stale registry0]
    by (simp add: chunk0_stale_def chunk0_def)
  then show ?thesis
    using generate_chunk0 by (simp add: chunk0_stale_def chunk0_def)
qed

theorem terrain_layers_witness:
  "dataStore chunk0 = Map.empty \<and> wellFormed registry0 \<and>
   generate registry0 chunk0 = Inr chunk1 \<and>
   columnHeight registry0 chunk0 0 0 = 1 \<and> columnHeight registry0 chunk0 1 0 = 1 \<and>
   resourceAt registry0 chunk0 0 0 0 = 3 \<and> resourceAt registry0 chunk0 1 0 0 = 0 \<and>
   resourceAt registry0 chunk0 0 1 0 = 3 \<and> resourceAt registry0 chunk0 0 2 0 = 3 \<and>
   (\<exists>cl. getBlock chunk1 0 0 0 = Inr (Some cl) \<and> id_block cl = 3) \<and>
   (\<exists>cl. getBlock chunk1 1 0 0 = Inr (Some cl) \<and> id_block cl = 2) \<and>
   (\<exists>cl. getBlock chunk1 0 1 0 = Inr (Some cl) \<and> id_block cl = 1) \<and>
   (\<exists>cl. getBlock chunk1 0 2 0 = Inr (Some cl) \<and> id_block cl = 0)"
proof -
  have e: "dataStore chunk0 = Map.empty"
    by (simp add: chunk0_def)
  note t = terrain_layers [OF e, of registry0, THEN conjunct2, rule_format, OF conjI]
  have h: "columnHeight registry0 chunk0 0 0 = 1" "columnHeight registry0 chunk0 1 0 = 1"
    by (simp_all add: columnHeight_def registry0_def chunk0_def)
  have r: "resourceAt registry0 chunk0 0 0 0 = 3" "resourceAt registry0 chunk0 1 0 0 = 0"
    "resourceAt registry0 chunk0 0 1 0 = 3" "resourceAt registry0 chunk0 0 2 0 = 3"
    by (simp_all add: resourceAt_def registry0_def chunk0_def)
  have ib: "inBounds chunk0 0 0 0" "inBounds chunk0 1 0 0" "inBounds chunk0 0 1 0" "inBounds chunk0 0 2 0"
    by (simp_all add: inBounds_def chunk0_def)
  have ids: "grass_id registry0 = 1" "dirt_id registry0 = 2" "empty_id registry0 = 0"
    by (simp_all add: registry0_def)
  from t [OF generate_chunk0 ib(1)] have "\<exists>cl. getBlock chunk1 0 0 0 = Inr (Some cl) \<and> id_block cl = 3"
    by (simp add: h r ids)
  moreover from t [OF generate_chunk0 ib(2)] have "\<exists>cl. getBlock chunk1 1 0 0 = Inr (Some cl) \<and> id_block cl = 2"
    by (simp add: h r ids)
  moreover from t [OF generate_chunk0 ib(3)] have "\<exists>cl. getBlock chunk1 0 1 0 = Inr (Some cl) \<and> id_block cl = 1"
    by (simp add: h r ids)
  moreover from t [OF generate_chunk0 ib(4)] have "\<exists>cl. getBlock chunk1 0 2 0 = Inr (Some cl) \<and> id_block cl = 0"
    by (simp add: h r ids)
  ultimately show ?thesis
    using e wellFormed_registry0 generate_chunk0 h r by simp
qed

theorem overlay_precedence_witness:
  "generate registry0 chunk0_edited = Inr chunk1_edited \<and>
   dataStore chunk0_edited (0, 0, 1, 0, 0) = Some 3 \<and>
   dataStore chunk0_edited (0, 0, 0, 1, 0) = Some 0 \<and>
   getBlock chunk1 1 0 0 = Inr (Some \<lparr>id_block = 2, instanceId = Some 0\<rparr>) \<and>
   (\<exists>cl. getBlock chunk1_edited 1 0 0 = Inr (Some cl) \<and> id_block cl = 3) \<and>
   (\<exists>cl. getBlock chunk1_edited 0 1 0 = Inr (Some cl) \<and> id_block cl = 0)"
proof -
  note t = overlay_precedence [of registry0 chunk0_edited]
  note t1 = t [THEN conjunct2, THEN conjunct1, rule_format, OF conjI [OF _ conjI]]
  have st: "\<forall>k v. dataStore chunk0_edited k = Some v \<longrightarrow> registered registry0 v"
    by (auto simp: chunk0_edited_def registered_def registry0_def split: if_splits)
  from t wellFormed_registry0 st have "\<exists>c'. generate registry0 chunk0_edited = Inr c'"
    by blast
  then have g: "generate registry0 chunk0_edited = Inr chunk1_edited"
    by (auto simp: chunk1_edited_def)
  have d: "dataStore chunk0_edited (0, 0, 1, 0, 0) = Some 3"
    "dataStore chunk0_edited (0, 0, 0, 1, 0) = Some 0"
    by (simp_all add: chunk0_edited_def)
  have p: "vx (position chunk0_edited) = 0" "vz (position chunk0_edited) = 0"
    by (simp_all add: chunk0_edited_def chunk0_def)
  have ib: "inBounds chunk0_edited 1 0 0" "inBounds chunk0_edited 0 1 0"
    by (simp_all add: inBounds_def chunk0_edited_def chunk0_def)
  have base: "getBlock chunk1 1 0 0 = Inr (Some \<lparr>id_block = 2, instanceId = Some 0\<rparr>)"
    by code_simp
  from t1 [OF g ib(1), of 3] d(1) p have "\<exists>cl. getBlock chunk1_edited 1 0 0 = Inr (Some cl) \<and> id_block cl = 3"
    by simp
  moreover from t1 [OF g ib(2), of 0] d(2) p have "\<exists>cl. getBlock chunk1_edited 0 1 0 = Inr (Some cl) \<and> id_block cl = 0"
    by simp
  ultimately show ?thesis
    using g d base by simp
qed

lemma getBlock_Some_shaped:
  assumes "shaped c" "getBlock c x y z = Inr (Some cl)"
  shows "inBounds c x y z" "cl = cellAt c x y z"
proof -
  show i: "inBounds c x y z"
    using assms(2) by (simp add: getBlock_Some_iff)
  show "cl = cellAt c x y z"
    using getBlock_in [OF assms(1) i] assms(2) by simp
qed

lemma getBlock_putCell:
  assumes "shaped c" "inBounds c x y z"
  shows "getBlock (putCell c x y z cl) x' y' z' =
           (if (x', y', z') = (x, y, z) then Inr (Some cl) else getBlock c x' y' z')"
proof (cases "inBounds c x' y' z'")
  case False
  then show ?thesis
    using assms(2) by (auto simp: getBlock_out)
next
  case True
  have s: "shaped (putCell c x y z cl)" by (rule shaped_putCell [OF assms(1)])
  have i: "inBounds (putCell c x y z cl) x' y' z'" using True by simp
  show ?thesis
    using getBlock_in [OF s i] getBlock_in [OF assms(1) True] cellAt_putCell [OF assms True]
    by auto
qed

lemma consistent_getMatrixAt:
  assumes c: "consistent env c" and g: "getBlock c x y z = Inr (Some cl)"
    and j: "instanceId cl = Some j"
  shows "\<exists>k. children c (id_block cl) = Some k \<and> 0 \<le> j \<and> j < count k \<and>
           getMatrixAt k j = Some (x, y, z)"
proof -
  note s = consistent_shaped [OF c]
  note q = getBlock_Some_shaped [OF s g]
  from consistent_cell [OF c q(1)] j q(2) obtain k where
    k: "children c (id_block cl) = Some k" "0 \<le> j" "j < count k" "matrix k j = Some (x, y, z)"
    by auto
  have "count k \<le> maxCount k"
    by (rule consistent_count_le [OF c k(1) q(1)])
  then have "getMatrixAt k j = Some (x, y, z)"
    using k(2,3,4) by (simp add: getMatrixAt_def)
  with k show ?thesis by blast
qed

text \<open>
  C2: in every chunk that \<open>generate\<close> returned, and in every chunk that \<open>addBlock\<close> or
  \<open>removeBlock\<close> returned afterwards, each block type other than the empty one has a batch
  whose count is the number of cells of that type with an instance id, and these instance
  ids are exactly \<open>0, \<dots>, count - 1\<close>, without gaps and without duplicates.
\<close>

theorem batch_count_invariant: "reachable env c \<Longrightarrow> batchCountInvariant env c"
  by (rule consistent_batchCountInvariant [OF reachable_consistent])

text \<open>
  C3, amended: after \<open>generate\<close>, a cell inside the chunk has no instance id if and only if
  it is empty or all six neighbours are inside the chunk and not empty. A neighbour outside
  the chunk counts as empty, so \<open>isBlockObscured\<close> is false for every cell on the border.
\<close>

theorem occlusion_culling:
  assumes "generate env c = Inr c'" and "inBounds c' x y z"
  shows "\<exists>cl. getBlock c' x y z = Inr (Some cl) \<and>
           (instanceId cl = None \<longleftrightarrow>
              id_block cl = empty_id env \<or> allNeighboursNonEmpty env c' x y z) \<and>
           isBlockObscured env c' x y z = Inr (allNeighboursNonEmpty env c' x y z) \<and>
           (\<not> interior c' x y z \<longrightarrow> \<not> allNeighboursNonEmpty env c' x y z)"
proof -
  note r = generate_result [OF assms(1)]
  note s = consistent_shaped [OF r(1)]
  have g: "getBlock c' x y z = Inr (Some (cellAt c' x y z))"
    by (rule getBlock_in [OF s assms(2)])
  have cu: "instanceId (cellAt c' x y z) = None \<longleftrightarrow>
      id_block (cellAt c' x y z) = empty_id env \<or> allNeighboursNonEmpty env c' x y z"
    using r(2) assms(2) by (simp add: culled_def)
  have ob: "isBlockObscured env c' x y z = Inr (allNeighboursNonEmpty env c' x y z)"
    by (rule isBlockObscured_shaped [OF s])
  have bo: "\<not> allNeighboursNonEmpty env c' x y z" if "\<not> interior c' x y z"
    using that by (auto simp: interior_def allNeighboursNonEmpty_def nonEmptyAt_shaped [OF s])
  show ?thesis
  proof (intro exI [of _ "cellAt c' x y z"] conjI)
    show "getBlock c' x y z = Inr (Some (cellAt c' x y z))" by (rule g)
    show "instanceId (cellAt c' x y z) = None \<longleftrightarrow>
        id_block (cellAt c' x y z) = empty_id env \<or> allNeighboursNonEmpty env c' x y z"
      by (rule cu)
    show "isBlockObscured env c' x y z = Inr (allNeighboursNonEmpty env c' x y z)" by (rule ob)
    show "\<not> interior c' x y z \<longrightarrow> \<not> allNeighboursNonEmpty env c' x y z"
      using bo by simp
  qed
qed

text \<open>
  C9: a read of the grid outside the bounds gives no cell (the empty id for an occlusion
  test) and a write there returns the chunk unchanged, in any state of the chunk and with no
  error; the last pass of the terrain fill loop, at \<open>y = height\<close>, changes nothing; the
  terrain pass keeps the shape of the grid; and the grid of every chunk that \<open>generate\<close>,
  \<open>addBlock\<close> or \<open>removeBlock\<close> returned is exactly width by height by width, so no cell is
  stored at a coordinate out of range.
\<close>

theorem bounds_policy:
  "(\<not> inBounds c x y z \<longrightarrow>
      getBlock c x y z = Inr None \<and> neighbourId env c x y z = Inr (empty_id env) \<and>
      setBlockId c x y z b = Inr c \<and> setBlockInstanceId c x y z i = Inr c) \<and>
   terrainStep env x z h (height (size_chunk c)) c = Inr c \<and>
   (shaped c \<longrightarrow> (\<exists>c'. generateTerrain env c = Inr c' \<and> shaped c' \<and> size_chunk c' = size_chunk c)) \<and>
   (reachable env c \<longrightarrow> shaped c)"
proof (intro conjI impI)
  assume o: "\<not> inBounds c x y z"
  show "getBlock c x y z = Inr None" by (rule getBlock_out [OF o])
  then show "neighbourId env c x y z = Inr (empty_id env)" by (simp add: neighbourId_def)
  show "setBlockId c x y z b = Inr c" by (rule setBlockId_out [OF o])
  show "setBlockInstanceId c x y z i = Inr c" by (rule setBlockInstanceId_out [OF o])
next
  have "\<not> inBounds c x (height (size_chunk c)) z"
    by (simp add: inBounds_def)
  then show "terrainStep env x z h (height (size_chunk c)) c = Inr c"
    by (auto simp: terrainStep_def terrainRest_def getBlock_def setBlockId_def)
next
  assume "shaped c"
  from generateTerrain_cellwise [OF this, of env] obtain c' where
    c': "generateTerrain env c = Inr c'"
    "cellwise c c' (\<lambda>x y z. fillCell env (columnHeight env c x z) y)"
    by blast
  from c'(1) cellwise_fields(7) [OF c'(2)] cellwise_fields(1) [OF c'(2)]
  show "\<exists>c'. generateTerrain env c = Inr c' \<and> shaped c' \<and> size_chunk c' = size_chunk c"
    by blast
next
  assume "reachable env c"
  then show "shaped c"
    by (rule consistent_shaped [OF reachable_consistent])
qed

lemma getBlock_putCell_other:
  assumes "shaped c" "inBounds c x y z" "(x', y', z') \<noteq> (x, y, z)"
  shows "getBlock (putCell c x y z cl) x' y' z' = getBlock c x' y' z'"
  using getBlock_putCell [OF assms(1,2), of cl x' y' z'] assms(3) by auto

lemma getBlock_putCell_same:
  assumes "shaped c" "inBounds c x y z"
  shows "getBlock (putCell c x y z cl) x y z = Inr (Some cl)"
  using getBlock_putCell [OF assms, of cl x y z] by simp

lemma getBlock_placed:
  assumes "shaped c" "inBounds c x y z"
  shows "getBlock (placed c x y z b m) x y z =
           Inr (Some \<lparr>id_block = b, instanceId = Some (count m)\<rparr>)"
    and "(x', y', z') \<noteq> (x, y, z) \<Longrightarrow> getBlock (placed c x y z b m) x' y' z' = getBlock c x' y' z'"
  using getBlock_putCell_same [OF assms] getBlock_putCell_other [OF assms]
  by (simp_all add: placed_def)

text \<open>
  C7, amended: in a chunk that \<open>generate\<close>, \<open>addBlock\<close> or \<open>removeBlock\<close> returned,
  \<open>addBlock\<close> with a block id of the registry other than the empty one, at a cell that is
  empty, returns; the cell then has the new id and the instance id \<open>count\<close> of the batch of
  that id, whose count has grown by one and whose slot \<open>count\<close> holds the position of the
  cell; the other slots, the other batches and the other cells are as before, and the Edit
  Store holds the new id under the chunk origin and the local coordinate.
\<close>

theorem addBlock_places_instance:
  assumes "reachable env c" and "getBlock c x y z = Inr (Some cl)"
    and "id_block cl = empty_id env" and "b \<noteq> empty_id env" and "b \<in> set (block_ids env)"
  shows "\<exists>m c' m'.
      children c b = Some m \<and> addBlock env c x y z b = Inr c' \<and>
      getBlock c' x y z = Inr (Some \<lparr>id_block = b, instanceId = Some (count m)\<rparr>) \<and>
      children c' b = Some m' \<and> count m' = count m + 1 \<and>
      getMatrixAt m' (count m) = Some (x, y, z) \<and>
      (\<forall>j. j \<noteq> count m \<longrightarrow> getMatrixAt m' j = getMatrixAt m j) \<and>
      (\<forall>b'. b' \<noteq> b \<longrightarrow> children c' b' = children c b') \<and>
      dataStore c' = (dataStore c)((vx (position c), vz (position c), x, y, z) \<mapsto> b) \<and>
      (\<forall>x' y' z'. (x', y', z') \<noteq> (x, y, z) \<longrightarrow> getBlock c' x' y' z' = getBlock c x' y' z')"
proof -
  note c = reachable_consistent [OF assms(1)]
  note s = consistent_shaped [OF c]
  note q = getBlock_Some_shaped [OF s assms(2)]
  have e: "id_block (cellAt c x y z) = empty_id env"
    using assms(3) q(2) by simp
  from consistent_dom [OF c assms(5,4)] obtain m where m: "children c b = Some m"
    by blast
  let ?m' = "m\<lparr>count := count m + 1, matrix := (matrix m)(count m \<mapsto> (x, y, z))\<rparr>"
  let ?c' = "(placed c x y z b m)\<lparr>dataStore :=
                  (dataStore c)((vx (position c), vz (position c), x, y, z) \<mapsto> b)\<rparr>"
  have a: "addBlock env c x y z b = Inr ?c'"
    by (rule addBlock_consistent [OF c q(1) e assms(4) m])
  have cap: "count m < maxCount m"
    by (rule consistent_capacity [OF c m q(1)]) (simp add: consistent_empty [OF c q(1) e])
  have cnt: "0 \<le> count m"
    by (rule consistent_mesh(2) [OF c m])
  have gm: "getMatrixAt ?m' j = (if j = count m then Some (x, y, z) else getMatrixAt m j)" for j
    using cap cnt by (simp add: getMatrixAt_def)
  show ?thesis
  proof (rule exI [of _ m], rule exI [of _ ?c'], rule exI [of _ ?m'], intro conjI allI impI)
    show "children c b = Some m" by (rule m)
    show "addBlock env c x y z b = Inr ?c'" by (rule a)
    show "getBlock ?c' x y z = Inr (Some \<lparr>id_block = b, instanceId = Some (count m)\<rparr>)"
      by (simp add: getBlock_placed(1) [OF s q(1)])
    show "children ?c' b = Some ?m'" by simp
    show "count ?m' = count m + 1" by simp
    show "getMatrixAt ?m' (count m) = Some (x, y, z)" by (simp add: gm)
  next
    fix j
    assume "j \<noteq> count m"
    then show "getMatrixAt ?m' j = getMatrixAt m j" by (simp add: gm)
  next
    fix b'
    assume "b' \<noteq> b"
    then show "children ?c' b' = children c b'" by simp
  next
    show "dataStore ?c' = (dataStore c)((vx (position c), vz (position c), x, y, z) \<mapsto> b)"
      by simp
  next
    fix x' y' z'
    assume "(x', y', z') \<noteq> (x, y, z)"
    from getBlock_placed(2) [OF s q(1) this]
    show "getBlock ?c' x' y' z' = getBlock c x' y' z'"
      by simp
  qed
qed

lemma getBlock_unlinked_last:
  assumes s: "shaped c" and q: "inBounds c x y z" and l: "inBounds c lx ly lz"
    and ne: "(lx, ly, lz) \<noteq> (x, y, z)"
  shows "getBlock (putCell (unlinked c x y z i b m lx ly lz) x y z cl) lx ly lz =
           Inr (Some ((cellAt c lx ly lz)\<lparr>instanceId := Some i\<rparr>))"
proof -
  note u = unlinked_cells [OF s q l, where i = i and b = b and m = m]
  have qu: "inBounds (unlinked c x y z i b m lx ly lz) x y z" using q by simp
  have lu: "inBounds (unlinked c x y z i b m lx ly lz) lx ly lz" using l by simp
  have "getBlock (putCell (unlinked c x y z i b m lx ly lz) x y z cl) lx ly lz =
      getBlock (unlinked c x y z i b m lx ly lz) lx ly lz"
    by (rule getBlock_putCell_other [OF u(1) qu ne])
  also have "\<dots> = Inr (Some ((cellAt c lx ly lz)\<lparr>instanceId := Some i\<rparr>))"
    using getBlock_in [OF u(1) lu] u(3) [OF ne] by simp
  finally show ?thesis .
qed

text \<open>
  C5, amended: in a chunk that \<open>generate\<close>, \<open>addBlock\<close> or \<open>removeBlock\<close> returned,
  \<open>removeBlock\<close> at a cell with instance id \<open>i\<close> in a batch of count \<open>n\<close> returns; the
  position stored in slot \<open>n - 1\<close> is written into slot \<open>i\<close>, the count becomes \<open>n - 1\<close>,
  the removed cell is empty and has no instance id; when \<open>i < n - 1\<close> the cell that claimed
  slot \<open>n - 1\<close> now has instance id \<open>i\<close>, and when \<open>i = n - 1\<close> that cell is the removed cell
  itself; afterwards every cell with an instance id points to an active slot of the batch of
  its block type that stores the cell's position.
\<close>

theorem swap_with_last_removal:
  assumes "reachable env c" and "getBlock c x y z = Inr (Some cl)"
    and "id_block cl \<noteq> empty_id env" and "instanceId cl = Some i"
  shows "\<exists>m lx ly lz last c' m'.
      children c (id_block cl) = Some m \<and> 0 \<le> i \<and> i < count m \<and>
      getMatrixAt m (count m - 1) = Some (lx, ly, lz) \<and>
      getBlock c lx ly lz = Inr (Some last) \<and> id_block last = id_block cl \<and>
      instanceId last = Some (count m - 1) \<and>
      removeBlock env c x y z = Inr c' \<and>
      children c' (id_block cl) = Some m' \<and> count m' = count m - 1 \<and>
      getMatrixAt m' i = Some (lx, ly, lz) \<and>
      getBlock c' x y z = Inr (Some \<lparr>id_block = empty_id env, instanceId = None\<rparr>) \<and>
      (i < count m - 1 \<longrightarrow> getBlock c' lx ly lz = Inr (Some (last\<lparr>instanceId := Some i\<rparr>))) \<and>
      (i = count m - 1 \<longrightarrow> (lx, ly, lz) = (x, y, z)) \<and>
      (\<forall>x' y' z' cl' j. getBlock c' x' y' z' = Inr (Some cl') \<and> instanceId cl' = Some j \<longrightarrow>
         (\<exists>k. children c' (id_block cl') = Some k \<and> 0 \<le> j \<and> j < count k \<and>
              getMatrixAt k j = Some (x', y', z')))"
proof -
  note c = reachable_consistent [OF assms(1)]
  note s = consistent_shaped [OF c]
  note q = getBlock_Some_shaped [OF s assms(2)]
  have idq: "id_block (cellAt c x y z) = id_block cl" and iq: "instanceId (cellAt c x y z) = Some i"
    using assms(4) q(2) by simp_all
  from consistent_last [OF c q(1) iq] idq obtain m lx ly lz where
    f: "children c (id_block cl) = Some m" "0 \<le> i" "i < count m"
    "matrix m i = Some (x, y, z)" "count m \<le> maxCount m"
    "matrix m (count m - 1) = Some (lx, ly, lz)" "inBounds c lx ly lz"
    "id_block (cellAt c lx ly lz) = id_block cl"
    "instanceId (cellAt c lx ly lz) = Some (count m - 1)"
    and same: "(lx, ly, lz) = (x, y, z) \<longleftrightarrow> i = count m - 1"
    by auto
  let ?b = "id_block cl"
  let ?m' = "m\<lparr>matrix := (matrix m)(i \<mapsto> (lx, ly, lz)), count := count m - 1\<rparr>"
  let ?u = "unlinked c x y z i ?b m lx ly lz"
  let ?c' = "(putCell ?u x y z \<lparr>id_block = empty_id env, instanceId = None\<rparr>)
               \<lparr>dataStore := (dataStore c)((vx (position c), vz (position c), x, y, z) \<mapsto> empty_id env)\<rparr>"
  have fm: "children c (id_block (cellAt c x y z)) = Some m"
    using f(1) idq by simp
  have d: "detached c x y z = ?u"
    using iq fm f(6) idq by (simp add: detached_def)
  have r: "removeBlock env c x y z = Inr ?c'"
    using removeBlock_cases [OF c, of x y z] q(1) assms(3) idq d by simp
  have c': "consistent env ?c'"
    by (rule removeBlock_preserves [OF c r])
  note u = unlinked_cells [OF s q(1) f(7), where i = i and b = ?b and m = m]
  have qu: "inBounds ?u x y z" using q(1) by simp
  show ?thesis
  proof (rule exI [of _ m], rule exI [of _ lx], rule exI [of _ ly], rule exI [of _ lz],
      rule exI [of _ "cellAt c lx ly lz"], rule exI [of _ ?c'], rule exI [of _ ?m'],
      intro conjI allI impI)
    show "children c ?b = Some m" by (rule f(1))
    show "0 \<le> i" by (rule f(2))
    show "i < count m" by (rule f(3))
    show "getMatrixAt m (count m - 1) = Some (lx, ly, lz)"
      using f(2,3,5,6) by (simp add: getMatrixAt_def)
    show "getBlock c lx ly lz = Inr (Some (cellAt c lx ly lz))"
      by (rule getBlock_in [OF s f(7)])
    show "id_block (cellAt c lx ly lz) = ?b" by (rule f(8))
    show "instanceId (cellAt c lx ly lz) = Some (count m - 1)" by (rule f(9))
    show "removeBlock env c x y z = Inr ?c'" by (rule r)
    show "children ?c' ?b = Some ?m'" by simp
    show "count ?m' = count m - 1" by simp
    show "getMatrixAt ?m' i = Some (lx, ly, lz)"
      using f(2,3,5) by (simp add: getMatrixAt_def)
    show "getBlock ?c' x y z = Inr (Some \<lparr>id_block = empty_id env, instanceId = None\<rparr>)"
      using getBlock_putCell_same [OF u(1) qu, of "\<lparr>id_block = empty_id env, instanceId = None\<rparr>"]
      by simp
  next
    assume "i < count m - 1"
    then have "(lx, ly, lz) \<noteq> (x, y, z)" using same by auto
    from getBlock_unlinked_last [OF s q(1) f(7) this]
    show "getBlock ?c' lx ly lz = Inr (Some ((cellAt c lx ly lz)\<lparr>instanceId := Some i\<rparr>))"
      by simp
  next
    assume "i = count m - 1"
    then show "(lx, ly, lz) = (x, y, z)" using same by blast
  next
    fix x' y' z' cl' j
    assume "getBlock ?c' x' y' z' = Inr (Some cl') \<and> instanceId cl' = Some j"
    then have "getBlock ?c' x' y' z' = Inr (Some cl')" "instanceId cl' = Some j" by simp_all
    from consistent_getMatrixAt [OF c' this]
    show "\<exists>k. children ?c' (id_block cl') = Some k \<and> 0 \<le> j \<and> j < count k \<and>
              getMatrixAt k j = Some (x', y', z')" .
  qed
qed

section \<open>The claims on concrete chunks\<close>

lemma returned: "\<not> isl m \<Longrightarrow> m = Inr (case m of Inr c \<Rightarrow> c | Inl e \<Rightarrow> d)"
  by (cases m) simp_all

lemma raised: "isl m \<Longrightarrow> m = Inl TypeError"
proof (cases m)
  case (Inl e)
  then show ?thesis by (cases e) simp
next
  case (Inr c)
  assume "isl m"
  then show ?thesis using Inr by simp
qed

lemma reachable_chunk1: "reachable registry0 chunk1"
  by (rule reachable.generated [OF generate_chunk0])

lemma addBlock_chunk1: "addBlock registry0 chunk1 0 2 0 2 = Inr chunk2"
proof -
  have "\<not> isl (addBlock registry0 chunk1 0 2 0 2)" by code_simp
  then show ?thesis unfolding chunk2_def by (rule returned)
qed

lemma removeBlock_chunk2: "removeBlock registry0 chunk2 0 1 0 = Inr chunk3"
proof -
  have "\<not> isl (removeBlock registry0 chunk2 0 1 0)" by code_simp
  then show ?thesis unfolding chunk3_def by (rule returned)
qed

lemma removeBlock_chunk1_first: "removeBlock registry0 chunk1 0 1 0 = Inr chunk1_first_removed"
proof -
  have "\<not> isl (removeBlock registry0 chunk1 0 1 0)" by code_simp
  then show ?thesis unfolding chunk1_first_removed_def by (rule returned)
qed

lemma removeBlock_chunk1_last: "removeBlock registry0 chunk1 1 1 1 = Inr chunk1_last_removed"
proof -
  have "\<not> isl (removeBlock registry0 chunk1 1 1 1)" by code_simp
  then show ?thesis unfolding chunk1_last_removed_def by (rule returned)
qed

lemma addBlock_chunk1_empty: "addBlock registry0 chunk1 0 2 0 0 = Inr chunk1_empty_added"
proof -
  have "\<not> isl (addBlock registry0 chunk1 0 2 0 0)" by code_simp
  then show ?thesis unfolding chunk1_empty_added_def by (rule returned)
qed

lemma generate_chunkFlat: "generate registry0 chunkFlat = Inr chunkFlat1"
proof -
  have "\<exists>c'. generate registry0 chunkFlat = Inr c'"
    by (rule generate_returns [OF wellFormed_registry0]) (simp add: chunkFlat_def chunk0_def)
  then show ?thesis
    by (auto simp: chunkFlat1_def)
qed

lemma generate_chunkFull: "generate registry0 chunkFull = Inr chunkFull1"
proof -
  have "\<exists>c'. generate registry0 chunkFull = Inr c'"
    by (rule generate_returns [OF wellFormed_registry0]) (simp add: chunkFull_def chunk0_def)
  then show ?thesis
    by (auto simp: chunkFull1_def)
qed

theorem batch_count_invariant_witness:
  "reachable registry0 chunk1 \<and> batchCountInvariant registry0 chunk1 \<and>
   reachable registry0 chunk3 \<and> batchCountInvariant registry0 chunk3 \<and>
   batchCount chunk3 1 = Some 3 \<and> instancesOf chunk3 1 = [1, 2, 0] \<and>
   batchCount chunk3 2 = Some 3 \<and> instancesOf chunk3 2 = [2, 0, 1] \<and>
   batchCount chunk3 3 = Some 2 \<and> instancesOf chunk3 3 = [0, 1]"
proof -
  have r2: "reachable registry0 chunk2"
    by (rule reachable.added [OF reachable_chunk1 addBlock_chunk1])
  have r3: "reachable registry0 chunk3"
    by (rule reachable.removed [OF r2 removeBlock_chunk2])
  have v: "batchCount chunk3 1 = Some 3" "instancesOf chunk3 1 = [1, 2, 0]"
    "batchCount chunk3 2 = Some 3" "instancesOf chunk3 2 = [2, 0, 1]"
    "batchCount chunk3 3 = Some 2" "instancesOf chunk3 3 = [0, 1]"
    by code_simp+
  show ?thesis
    using batch_count_invariant [OF reachable_chunk1] batch_count_invariant [OF r3]
      reachable_chunk1 r3 v
    by simp
qed

text \<open>
  C3 as stated fails at the interior cell of \<open>chunkFlat\<close>: it is empty and so has no
  instance id, while the neighbour above it is empty too.
\<close>

theorem occlusion_counterexample:
  "generate registry0 chunkFlat = Inr chunkFlat1 \<and> interior chunkFlat1 1 1 1 \<and>
   getBlock chunkFlat1 1 1 1 = Inr (Some \<lparr>id_block = 0, instanceId = None\<rparr>) \<and>
   \<not> allNeighboursNonEmpty registry0 chunkFlat1 1 1 1 \<and>
   getBlock chunkFlat1 1 2 1 = Inr (Some \<lparr>id_block = 0, instanceId = None\<rparr>) \<and>
   empty_id registry0 = 0"
proof -
  have "interior chunkFlat1 1 1 1"
    "getBlock chunkFlat1 1 1 1 = Inr (Some \<lparr>id_block = 0, instanceId = None\<rparr>)"
    "\<not> allNeighboursNonEmpty registry0 chunkFlat1 1 1 1"
    "getBlock chunkFlat1 1 2 1 = Inr (Some \<lparr>id_block = 0, instanceId = None\<rparr>)"
    "empty_id registry0 = 0"
    by code_simp+
  then show ?thesis
    using generate_chunkFlat by simp
qed

theorem occlusion_culling_witness:
  "generate registry0 chunkFull = Inr chunkFull1 \<and>
   inBounds chunkFull1 1 1 1 \<and> interior chunkFull1 1 1 1 \<and>
   allNeighboursNonEmpty registry0 chunkFull1 1 1 1 \<and>
   getBlock chunkFull1 1 1 1 = Inr (Some \<lparr>id_block = 2, instanceId = None\<rparr>) \<and>
   isBlockObscured registry0 chunkFull1 1 1 1 = Inr True \<and>
   inBounds chunkFull1 1 2 1 \<and> \<not> interior chunkFull1 1 2 1 \<and>
   \<not> allNeighboursNonEmpty registry0 chunkFull1 1 2 1 \<and>
   isBlockObscured registry0 chunkFull1 1 2 1 = Inr False \<and>
   (\<exists>cl. getBlock chunkFull1 1 2 1 = Inr (Some cl) \<and> id_block cl = 1 \<and> instanceId cl \<noteq> None)"
proof -
  have ib: "inBounds chunkFull1 1 1 1" "inBounds chunkFull1 1 2 1"
    by code_simp+
  have i: "interior chunkFull1 1 1 1" "\<not> interior chunkFull1 1 2 1"
    by code_simp+
  have n: "allNeighboursNonEmpty registry0 chunkFull1 1 1 1"
    by code_simp
  have g: "getBlock chunkFull1 1 1 1 = Inr (Some \<lparr>id_block = 2, instanceId = None\<rparr>)"
    "getBlock chunkFull1 1 2 1 = Inr (Some \<lparr>id_block = 1, instanceId = Some 4\<rparr>)"
    by code_simp+
  have e: "empty_id registry0 = 0"
    by (simp add: registry0_def)
  from occlusion_culling [OF generate_chunkFull ib(1)] n
  have a: "isBlockObscured registry0 chunkFull1 1 1 1 = Inr True"
    by auto
  from occlusion_culling [OF generate_chunkFull ib(2)] i(2) g(2) e
  have b: "\<not> allNeighboursNonEmpty registry0 chunkFull1 1 2 1"
    "isBlockObscured registry0 chunkFull1 1 2 1 = Inr False"
    by auto
  show ?thesis
    using generate_chunkFull ib i n g a b by simp
qed

text \<open>
  C5 as stated fails when the removed instance is the last one of its batch: the cell at
  \<open>(1, 1, 1)\<close> of \<open>chunk1\<close> claims slot 3 of the grass batch of count 4, and after its
  removal it has no instance id, not the instance id 3.
\<close>

theorem swap_with_last_counterexample:
  "reachable registry0 chunk1 \<and>
   getBlock chunk1 1 1 1 = Inr (Some \<lparr>id_block = 1, instanceId = Some 3\<rparr>) \<and>
   batchCount chunk1 1 = Some 4 \<and> slotPosition chunk1 1 3 = Some (1, 1, 1) \<and>
   removeBlock registry0 chunk1 1 1 1 = Inr chunk1_last_removed \<and>
   batchCount chunk1_last_removed 1 = Some 3 \<and>
   getBlock chunk1_last_removed 1 1 1 = Inr (Some \<lparr>id_block = 0, instanceId = None\<rparr>)"
proof -
  have "getBlock chunk1 1 1 1 = Inr (Some \<lparr>id_block = 1, instanceId = Some 3\<rparr>)"
    "batchCount chunk1 1 = Some 4" "slotPosition chunk1 1 3 = Some (1, 1, 1)"
    "batchCount chunk1_last_removed 1 = Some 3"
    "getBlock chunk1_last_removed 1 1 1 = Inr (Some \<lparr>id_block = 0, instanceId = None\<rparr>)"
    by code_simp+
  then show ?thesis
    using reachable_chunk1 removeBlock_chunk1_last by simp
qed

theorem swap_with_last_removal_witness:
  "reachable registry0 chunk1 \<and>
   getBlock chunk1 0 1 0 = Inr (Some \<lparr>id_block = 1, instanceId = Some 0\<rparr>) \<and>
   batchCount chunk1 1 = Some 4 \<and> slotPosition chunk1 1 3 = Some (1, 1, 1) \<and>
   getBlock chunk1 1 1 1 = Inr (Some \<lparr>id_block = 1, instanceId = Some 3\<rparr>) \<and>
   removeBlock registry0 chunk1 0 1 0 = Inr chunk1_first_removed \<and>
   batchCount chunk1_first_removed 1 = Some 3 \<and>
   slotPosition chunk1_first_removed 1 0 = Some (1, 1, 1) \<and>
   getBlock chunk1_first_removed 0 1 0 = Inr (Some \<lparr>id_block = 0, instanceId = None\<rparr>) \<and>
   getBlock chunk1_first_removed 1 1 1 = Inr (Some \<lparr>id_block = 1, instanceId = Some 0\<rparr>) \<and>
   (\<exists>k. children chunk1_first_removed 1 = Some k \<and> 2 < count k \<and> getMatrixAt k 2 = Some (1, 1, 0))"
proof -
  have g: "getBlock chunk1 0 1 0 = Inr (Some \<lparr>id_block = 1, instanceId = Some 0\<rparr>)"
    by code_simp
  have e: "id_block \<lparr>id_block = 1, instanceId = Some 0\<rparr> \<noteq> empty_id registry0"
    "instanceId \<lparr>id_block = 1, instanceId = Some (0 :: int)\<rparr> = Some 0"
    by (simp_all add: registry0_def)
  from swap_with_last_removal [OF reachable_chunk1 g e]
  obtain m lx ly lz last c' m' where
    w: "removeBlock registry0 chunk1 0 1 0 = Inr c'"
    and rest: "\<forall>x' y' z' cl' j.
         getBlock c' x' y' z' = Inr (Some cl') \<and> instanceId cl' = Some j \<longrightarrow>
         (\<exists>k. children c' (id_block cl') = Some k \<and> 0 \<le> j \<and> j < count k \<and>
              getMatrixAt k j = Some (x', y', z'))"
    by blast
  have c': "c' = chunk1_first_removed"
    using w removeBlock_chunk1_first by simp
  have g2: "getBlock chunk1_first_removed 1 1 0 = Inr (Some \<lparr>id_block = 1, instanceId = Some 2\<rparr>)"
    by code_simp
  from rest [rule_format, of 1 1 0 "\<lparr>id_block = 1, instanceId = Some 2\<rparr>" 2] g2 c'
  have k: "\<exists>k. children chunk1_first_removed 1 = Some k \<and> 2 < count k \<and> getMatrixAt k 2 = Some (1, 1, 0)"
    by simp
  have v: "batchCount chunk1 1 = Some 4" "slotPosition chunk1 1 3 = Some (1, 1, 1)"
    "getBlock chunk1 1 1 1 = Inr (Some \<lparr>id_block = 1, instanceId = Some 3\<rparr>)"
    "batchCount chunk1_first_removed 1 = Some 3"
    "slotPosition chunk1_first_removed 1 0 = Some (1, 1, 1)"
    "getBlock chunk1_first_removed 0 1 0 = Inr (Some \<lparr>id_block = 0, instanceId = None\<rparr>)"
    "getBlock chunk1_first_removed 1 1 1 = Inr (Some \<lparr>id_block = 1, instanceId = Some 0\<rparr>)"
    by code_simp+
  show ?thesis
    using reachable_chunk1 g removeBlock_chunk1_first v k by simp
qed

text \<open>
  C7 as stated fails for the empty id, which creates no instance, and for an id that is not
  in the registry, for which \<open>addBlock\<close> raises a \<open>TypeError\<close>.
\<close>

theorem addBlock_counterexample:
  "reachable registry0 chunk1 \<and>
   getBlock chunk1 0 2 0 = Inr (Some \<lparr>id_block = 0, instanceId = None\<rparr>) \<and>
   empty_id registry0 = 0 \<and>
   addBlock registry0 chunk1 0 2 0 0 = Inr chunk1_empty_added \<and>
   getBlock chunk1_empty_added 0 2 0 = Inr (Some \<lparr>id_block = 0, instanceId = None\<rparr>) \<and>
   addBlock registry0 chunk1 0 2 0 7 = Inl TypeError"
proof -
  have "getBlock chunk1 0 2 0 = Inr (Some \<lparr>id_block = 0, instanceId = None\<rparr>)"
    "empty_id registry0 = 0"
    "getBlock chunk1_empty_added 0 2 0 = Inr (Some \<lparr>id_block = 0, instanceId = None\<rparr>)"
    by code_simp+
  moreover have "isl (addBlock registry0 chunk1 0 2 0 7)"
    by code_simp
  then have "addBlock registry0 chunk1 0 2 0 7 = Inl TypeError"
    by (rule raised)
  ultimately show ?thesis
    using reachable_chunk1 addBlock_chunk1_empty by simp
qed

theorem addBlock_places_instance_witness:
  "reachable registry0 chunk1 \<and>
   getBlock chunk1 0 2 0 = Inr (Some \<lparr>id_block = 0, instanceId = None\<rparr>) \<and>
   batchCount chunk1 2 = Some 2 \<and>
   addBlock registry0 chunk1 0 2 0 2 = Inr chunk2 \<and>
   getBlock chunk2 0 2 0 = Inr (Some \<lparr>id_block = 2, instanceId = Some 2\<rparr>) \<and>
   batchCount chunk2 2 = Some 3 \<and> slotPosition chunk2 2 2 = Some (0, 2, 0) \<and>
   dataStore chunk2 (0, 0, 0, 2, 0) = Some 2 \<and>
   getBlock chunk2 1 0 0 = getBlock chunk1 1 0 0 \<and> children chunk2 1 = children chunk1 1"
proof -
  have g: "getBlock chunk1 0 2 0 = Inr (Some \<lparr>id_block = 0, instanceId = None\<rparr>)"
    by code_simp
  have e: "id_block \<lparr>id_block = 0, instanceId = None\<rparr> = empty_id registry0"
    "2 \<noteq> empty_id registry0" "2 \<in> set (block_ids registry0)"
    by (simp_all add: registry0_def)
  have p: "vx (position chunk1) = 0" "vz (position chunk1) = 0"
    by code_simp+
  from addBlock_places_instance [OF reachable_chunk1 g e]
  obtain m c' m' where
    w: "children chunk1 2 = Some m" "addBlock registry0 chunk1 0 2 0 2 = Inr c'"
    "getBlock c' 0 2 0 = Inr (Some \<lparr>id_block = 2, instanceId = Some (count m)\<rparr>)"
    "children c' 2 = Some m'" "count m' = count m + 1" "getMatrixAt m' (count m) = Some (0, 2, 0)"
    "\<forall>b'. b' \<noteq> 2 \<longrightarrow> children c' b' = children chunk1 b'"
    "dataStore c' = (dataStore chunk1)((vx (position chunk1), vz (position chunk1), 0, 2, 0) \<mapsto> 2)"
    "\<forall>x' y' z'. (x', y', z') \<noteq> (0, 2, 0) \<longrightarrow> getBlock c' x' y' z' = getBlock chunk1 x' y' z'"
    by blast
  have c': "c' = chunk2"
    using w(2) addBlock_chunk1 by simp
  have n: "batchCount chunk1 2 = Some 2"
    by code_simp
  then have cm: "count m = 2"
    using w(1) by (simp add: batchCount_def)
  have 1: "getBlock chunk2 0 2 0 = Inr (Some \<lparr>id_block = 2, instanceId = Some 2\<rparr>)"
    using w(3) c' cm by simp
  have 2: "batchCount chunk2 2 = Some 3" "slotPosition chunk2 2 2 = Some (0, 2, 0)"
    using w(4,5,6) c' cm by (simp_all add: batchCount_def slotPosition_def)
  have 3: "dataStore chunk2 (0, 0, 0, 2, 0) = Some 2"
    using w(8) c' p by simp
  have 4: "getBlock chunk2 1 0 0 = getBlock chunk1 1 0 0"
    using w(9) [rule_format, of 1 0 0] c' by simp
  have 5: "children chunk2 1 = children chunk1 1"
    using w(7) [rule_format, of 1] c' by simp
  show ?thesis
    using reachable_chunk1 g n addBlock_chunk1 1 2 3 4 5 by simp
qed

theorem bounds_policy_witness:
  "\<not> inBounds chunk1 0 3 0 \<and> getBlock chunk1 0 3 0 = Inr None \<and>
   neighbourId registry0 chunk1 0 3 0 = Inr 0 \<and>
   setBlockId chunk1 0 3 0 1 = Inr chunk1 \<and>
   setBlockInstanceId chunk1 0 3 0 (Some 0) = Inr chunk1 \<and>
   height (size_chunk chunk1) = 3 \<and>
   terrainStep registry0 0 0 1 3 chunk1 = Inr chunk1 \<and>
   reachable registry0 chunk3 \<and> shaped chunk3 \<and>
   (\<exists>c'. generateTerrain registry0 chunk3 = Inr c' \<and> shaped c' \<and> size_chunk c' = size_chunk chunk3)"
proof -
  have o: "\<not> inBounds chunk1 0 3 0"
    by code_simp
  have h: "height (size_chunk chunk1) = 3"
    by code_simp
  have e: "empty_id registry0 = 0"
    by (simp add: registry0_def)
  have r3: "reachable registry0 chunk3"
    by (rule reachable.removed [OF reachable.added [OF reachable_chunk1 addBlock_chunk1] removeBlock_chunk2])
  note a = bounds_policy [of chunk1 0 3 0 registry0 1 "Some 0" 1]
  note b = bounds_policy [of chunk3 0 0 0 registry0 0 None 0]
  have s3: "shaped chunk3"
    using b r3 by blast
  then have t3: "\<exists>c'. generateTerrain registry0 chunk3 = Inr c' \<and> shaped c' \<and> size_chunk c' = size_chunk chunk3"
    using b by blast
  show ?thesis
    using a o h e r3 s3 t3 by simp
qed

end
